theory Spec2Isabelle
  imports Main
begin

section \<open>Python values, errors and builtins\<close>

text \<open>
  The two programs (\<^verbatim>\<open>auct_solver.py\<close> and \<^verbatim>\<open>graph.py\<close>) are embedded as HOL functions.
  A raised exception is the left injection of a sum; Python integers are \<open>int\<close>, strings
  are \<open>string\<close>, lists and tuples are lists.
\<close>

datatype error = IndexError | ValueError | UnboundLocalError | Infeasible

fun bind_err :: "error + 'a \<Rightarrow> ('a \<Rightarrow> error + 'b) \<Rightarrow> error + 'b" where
  "bind_err (Inl e) k = Inl e"
| "bind_err (Inr x) k = k x"

text \<open>A \<^verbatim>\<open>for\<close> loop over a list whose body may raise: the first raise ends the loop.\<close>

fun for_each :: "('a \<Rightarrow> 's \<Rightarrow> error + 's) \<Rightarrow> 'a list \<Rightarrow> 's \<Rightarrow> error + 's" where
  "for_each body [] s = Inr s"
| "for_each body (x # xs) s =
     (case body x s of Inl e \<Rightarrow> Inl e | Inr s' \<Rightarrow> for_each body xs s')"

text \<open>\<^verbatim>\<open>xs[i]\<close>: an index below zero counts from the end, an index out of range raises.\<close>

definition getitem :: "'a list \<Rightarrow> int \<Rightarrow> error + 'a" where
  "getitem xs i =
     (if 0 \<le> i \<and> i < int (length xs) then Inr (xs ! nat i)
      else if i < 0 \<and> - int (length xs) \<le> i then Inr (xs ! nat (int (length xs) + i))
      else Inl IndexError)"

text \<open>\<^verbatim>\<open>xs[i] = v\<close>, with the same index rules.\<close>

definition setitem :: "'a list \<Rightarrow> int \<Rightarrow> 'a \<Rightarrow> error + 'a list" where
  "setitem xs i v =
     (if 0 \<le> i \<and> i < int (length xs) then Inr (xs[nat i := v])
      else if i < 0 \<and> - int (length xs) \<le> i then Inr (xs[nat (int (length xs) + i) := v])
      else Inl IndexError)"

text \<open>\<^verbatim>\<open>xs.index(x)\<close>: the position of the first element equal to \<open>x\<close>.\<close>

fun list_index :: "'a list \<Rightarrow> 'a \<Rightarrow> error + int" where
  "list_index [] x = Inl ValueError"
| "list_index (y # ys) x =
     (if y = x then Inr 0 else bind_err (list_index ys x) (\<lambda>i. Inr (i + 1)))"

text \<open>\<^verbatim>\<open>sep.join(xs)\<close>.\<close>

fun join :: "string \<Rightarrow> string list \<Rightarrow> string" where
  "join sep [] = []"
| "join sep [x] = x"
| "join sep (x # y # ys) = x @ sep @ join sep (y # ys)"

text \<open>\<^verbatim>\<open>str(i)\<close> for an integer: decimal digits, with a leading minus sign below zero.\<close>

function str_nat :: "nat \<Rightarrow> string" where
  "str_nat n =
     (if n < 10 then [''0123456789'' ! n]
      else str_nat (n div 10) @ [''0123456789'' ! (n mod 10)])"
  by pat_completeness auto
termination
  by (relation "measure id") auto

definition str_int :: "int \<Rightarrow> string" where
  "str_int i = (if i < 0 then CHR ''-'' # str_nat (nat (- i)) else str_nat (nat i))"

text \<open>
  \<^verbatim>\<open>int(token)\<close> is a parameter \<open>to_int\<close> of the functions that call it. The instance
  below reads a token of ASCII decimal digits with an optional sign and raises
  \<^verbatim>\<open>ValueError\<close> on anything else; it is the instance the concrete runs use.
\<close>

fun digits_value :: "int \<Rightarrow> string \<Rightarrow> error + int" where
  "digits_value acc [] = Inr acc"
| "digits_value acc (c # cs) =
     (if c \<in> set ''0123456789''
      then digits_value (10 * acc + (int (of_char c) - 48)) cs
      else Inl ValueError)"

definition int_decimal :: "string \<Rightarrow> error + int" where
  "int_decimal s =
     (case s of
        [] \<Rightarrow> Inl ValueError
      | c # cs \<Rightarrow>
          if c = CHR ''-'' then
            (if cs = [] then Inl ValueError
             else bind_err (digits_value 0 cs) (\<lambda>v. Inr (- v)))
          else if c = CHR ''+'' then
            (if cs = [] then Inl ValueError else digits_value 0 cs)
          else digits_value 0 s)"

section \<open>The weighted CNF formula (module wcnf)\<close>

text \<open>
  Modelled from the spec: module \<^verbatim>\<open>wcnf\<close> (class \<^verbatim>\<open>WCNFFormula\<close> and the constant
  \<^verbatim>\<open>TOP_WEIGHT\<close>) is imported by both programs and is not among the source files. The
  formula holds the count of allocated variables, the ordered hard clauses and the ordered
  soft clauses with their weights. \<^verbatim>\<open>new_var\<close> allocates the next id, starting at 1;
  \<^verbatim>\<open>add_clause\<close> appends to the hard clauses when the weight is the top weight and to the
  soft clauses with that exact weight otherwise, validating nothing;
  \<^verbatim>\<open>sum_soft_weights\<close> adds the soft weights. The value of \<^verbatim>\<open>TOP_WEIGHT\<close> is not
  given: it is the parameter \<open>top_weight\<close> of every function that adds a clause.
\<close>

record wcnf_formula =
  variables :: int
  hard :: "int list list"
  soft :: "(int list \<times> int) list"

definition WCNFFormula :: wcnf_formula where
  "WCNFFormula = \<lparr>variables = 0, hard = [], soft = []\<rparr>"

definition new_var :: "wcnf_formula \<Rightarrow> int \<times> wcnf_formula" where
  "new_var f = (variables f + 1, f\<lparr>variables := variables f + 1\<rparr>)"

definition add_clause :: "int \<Rightarrow> wcnf_formula \<Rightarrow> int list \<Rightarrow> int \<Rightarrow> wcnf_formula" where
  "add_clause top_weight f literals weight =
     (if weight = top_weight then f\<lparr>hard := hard f @ [literals]\<rparr>
      else f\<lparr>soft := soft f @ [(literals, weight)]\<rparr>)"

definition sum_soft_weights :: "wcnf_formula \<Rightarrow> int" where
  "sum_soft_weights f = sum_list (map snd (soft f))"

text \<open>\<^verbatim>\<open>[formula.new_var() for _ in range(k)]\<close>.\<close>

fun new_vars :: "nat \<Rightarrow> wcnf_formula \<Rightarrow> int list \<times> wcnf_formula" where
  "new_vars 0 f = ([], f)"
| "new_vars (Suc k) f =
     (case new_var f of (v, f1) \<Rightarrow>
        (case new_vars k f1 of (vs, f2) \<Rightarrow> (v # vs, f2)))"

section \<open>The solver (module msat\_runner)\<close>

text \<open>
  Modelled from the spec: \<^verbatim>\<open>msat_runner.MaxSATRunner.solve\<close> runs an external program and
  is not among the source files. It is the parameter \<open>solve\<close> of every function that
  calls it. Its contract: the assignment holds one signed literal per declared variable,
  the literal of variable \<open>v\<close> at position \<open>v\<close>; it satisfies every hard clause; the
  optimal cost is the weight of the soft clauses the assignment falsifies, and no
  assignment satisfying the hard clauses falsifies less; when no assignment satisfies the
  hard clauses the call fails with \<^verbatim>\<open>Infeasible\<close>. \<open>SolverPort solve f\<close> says that
  \<open>solve\<close> keeps the contract on the formula \<open>f\<close>.
\<close>

definition satisfied :: "int list \<Rightarrow> int list \<Rightarrow> bool" where
  "satisfied model clause = (\<exists>l \<in> set clause. l \<in> set model)"

definition complete_assignment :: "wcnf_formula \<Rightarrow> int list \<Rightarrow> bool" where
  "complete_assignment f model = (map abs model = [1..variables f])"

definition feasible :: "wcnf_formula \<Rightarrow> int list \<Rightarrow> bool" where
  "feasible f model =
     (complete_assignment f model \<and> list_all (satisfied model) (hard f))"

definition falsified_weight :: "int list \<Rightarrow> (int list \<times> int) list \<Rightarrow> int" where
  "falsified_weight model cs =
     sum_list (map (\<lambda>cw. if satisfied model (fst cw) then 0 else snd cw) cs)"

definition cost :: "wcnf_formula \<Rightarrow> int list \<Rightarrow> int" where
  "cost f model = falsified_weight model (soft f)"

definition SolverPort_result :: "wcnf_formula \<Rightarrow> int \<times> int list \<Rightarrow> bool" where
  "SolverPort_result f r =
     (feasible f (snd r) \<and> fst r = cost f (snd r) \<and>
      (\<forall>m. feasible f m \<longrightarrow> fst r \<le> cost f m))"

definition SolverPort :: "(wcnf_formula \<Rightarrow> error + int \<times> int list) \<Rightarrow> wcnf_formula \<Rightarrow> bool" where
  "SolverPort solve f =
     (if (\<exists>m. feasible f m) then (\<exists>r. solve f = Inr r \<and> SolverPort_result f r)
      else solve f = Inl Infeasible)"

section \<open>The auction reducer (auct\_solver.py)\<close>

record auction =
  flag :: bool
  formula :: wcnf_formula
  goods :: "(string \<times> int) set"
  auctions :: "string list list"
  auctioneers :: "string list"

text \<open>\<^verbatim>\<open>Auction.__init__\<close>; the solver is a parameter of the methods that call it.\<close>

definition Auction :: "bool \<Rightarrow> auction" where
  "Auction fl =
     \<lparr>flag = fl, formula = WCNFFormula, goods = {}, auctions = [], auctioneers = []\<rparr>"

text \<open>\<^verbatim>\<open>bid[1:len(bid)-1]\<close>: the tokens between the agent and the price.\<close>

definition bid_goods :: "string list \<Rightarrow> string list" where
  "bid_goods bid = drop 1 (take (length bid - 1) bid)"

text \<open>\<^verbatim>\<open>int(bid[-1])\<close>: the price of a bid.\<close>

definition bid_price :: "(string \<Rightarrow> error + int) \<Rightarrow> string list \<Rightarrow> error + int" where
  "bid_price to_int bid = bind_err (getitem bid (- 1)) to_int"

definition manage_auction ::
  "int \<Rightarrow> (string \<Rightarrow> error + int) \<Rightarrow> auction \<Rightarrow> string list \<Rightarrow> error + auction" where
  "manage_auction top_weight to_int a bid =
     bind_err (bid_price to_int bid) (\<lambda>weight.
       case new_var (formula a) of (actual_auction, f1) \<Rightarrow>
         Inr (a\<lparr>formula := add_clause top_weight f1 [actual_auction] weight,
                goods := fold (\<lambda>good gs. insert (good, actual_auction) gs)
                           (bid_goods bid) (goods a)\<rparr>))"

text \<open>
  \<^verbatim>\<open>manage_incompatibilities(goods)\<close>. The argument is a Python set; \<open>gs\<close> is the order in
  which the two nested loops iterate it (the same order in both, the set being unchanged
  meanwhile).
\<close>

definition incompatible ::
  "int \<Rightarrow> string \<times> int \<Rightarrow> string \<times> int \<Rightarrow> auction \<Rightarrow> auction" where
  "incompatible top_weight good good2 a =
     (if fst good = fst good2 \<and> snd good \<noteq> snd good2 \<and> snd good < snd good2
         \<and> [- snd good, - snd good2] \<notin> set (hard (formula a))
      then a\<lparr>formula := add_clause top_weight (formula a) [- snd good, - snd good2] top_weight\<rparr>
      else a)"

definition manage_incompatibilities :: "int \<Rightarrow> auction \<Rightarrow> (string \<times> int) list \<Rightarrow> auction" where
  "manage_incompatibilities top_weight a gs =
     fold (\<lambda>good. fold (\<lambda>good2. incompatible top_weight good good2) gs) gs a"

text \<open>The inner loop of \<^verbatim>\<open>check_all_auctioneers_win\<close>: the clause of one auctioneer.\<close>

definition auctions_of_auctioneer :: "string list list \<Rightarrow> string \<Rightarrow> error + int list" where
  "auctions_of_auctioneer aucts auctioneer =
     for_each (\<lambda>auction acc.
        bind_err (getitem auction 0) (\<lambda>agent.
          if auctioneer = agent
          then bind_err (list_index aucts auction) (\<lambda>i. Inr (acc @ [i + 1]))
          else Inr acc))
       aucts []"

text \<open>The outer loop of \<^verbatim>\<open>check_all_auctioneers_win\<close>: one hard clause per auctioneer.\<close>

definition auctioneer_clauses :: "int \<Rightarrow> auction \<Rightarrow> error + auction" where
  "auctioneer_clauses top_weight a =
     for_each (\<lambda>auctioneer a'.
        bind_err (auctions_of_auctioneer (auctions a') auctioneer) (\<lambda>c.
          Inr (a'\<lparr>formula := add_clause top_weight (formula a') c top_weight\<rparr>)))
       (auctioneers a) a"

definition check_all_auctioneers_win ::
  "int \<Rightarrow> (wcnf_formula \<Rightarrow> error + int \<times> int list) \<Rightarrow> auction
     \<Rightarrow> error + auction \<times> (int \<times> int list)" where
  "check_all_auctioneers_win top_weight solve a =
     bind_err (auctioneer_clauses top_weight a) (\<lambda>a'.
     bind_err (solve (formula a')) (\<lambda>solution. Inr (a', solution)))"

text \<open>
  The body of the loop of \<^verbatim>\<open>parse_input_stream\<close>. A line is the list of its tokens
  (\<^verbatim>\<open>line.split()\<close>); the reader has dropped the blank lines.
\<close>

definition parse_line ::
  "int \<Rightarrow> (string \<Rightarrow> error + int) \<Rightarrow> string list \<Rightarrow> auction \<Rightarrow> error + auction" where
  "parse_line top_weight to_int l a =
     bind_err (getitem l 0) (\<lambda>t.
       let a1 = (if t = ''a'' then a\<lparr>auctioneers := auctioneers a @ drop 1 l\<rparr> else a)
       in if t \<noteq> ''g'' \<and> t \<noteq> ''a''
          then manage_auction top_weight to_int (a1\<lparr>auctions := auctions a1 @ [l]\<rparr>) l
          else Inr a1)"

text \<open>
  \<^verbatim>\<open>parse_input_stream\<close> returns the solver's answer and leaves the object changed: the
  model returns both. \<open>iter\<close> gives the order in which a set of goods is iterated.
\<close>

definition parse_input_stream ::
  "int \<Rightarrow> (string \<Rightarrow> error + int) \<Rightarrow> ((string \<times> int) set \<Rightarrow> (string \<times> int) list)
     \<Rightarrow> (wcnf_formula \<Rightarrow> error + int \<times> int list) \<Rightarrow> auction \<Rightarrow> string list list
     \<Rightarrow> error + auction \<times> (int \<times> int list)" where
  "parse_input_stream top_weight to_int iter solve a lines =
     bind_err (for_each (parse_line top_weight to_int) lines a) (\<lambda>a1.
       let a2 = manage_incompatibilities top_weight a1 (iter (goods a1))
       in if flag a2
          then bind_err (solve (formula a2)) (\<lambda>solution. Inr (a2, solution))
          else check_all_auctioneers_win top_weight solve a2)"

text \<open>
  The object as it stands when the solver is called: everything \<^verbatim>\<open>parse_input_stream\<close>
  does before \<^verbatim>\<open>solve\<close>.
\<close>

definition build_formula ::
  "int \<Rightarrow> (string \<Rightarrow> error + int) \<Rightarrow> ((string \<times> int) set \<Rightarrow> (string \<times> int) list)
     \<Rightarrow> auction \<Rightarrow> string list list \<Rightarrow> error + auction" where
  "build_formula top_weight to_int iter a lines =
     bind_err (for_each (parse_line top_weight to_int) lines a) (\<lambda>a1.
       let a2 = manage_incompatibilities top_weight a1 (iter (goods a1))
       in if flag a2 then Inr a2 else auctioneer_clauses top_weight a2)"

text \<open>
  \<^verbatim>\<open>print_solution\<close>: the lines printed, and the exception that ended the printing, if
  one did.
\<close>

definition bid_line :: "string list \<Rightarrow> error + string" where
  "bid_line to_print =
     bind_err (getitem to_print 0) (\<lambda>agent.
     bind_err (getitem to_print (- 1)) (\<lambda>price.
       Inr (agent @ '': '' @ join '','' (bid_goods to_print) @ '' (Price '' @ price @ '')'')))"

fun print_bids :: "string list list \<Rightarrow> int list \<Rightarrow> string list \<Rightarrow> string list \<times> error option" where
  "print_bids aucts [] out = (out, None)"
| "print_bids aucts (bid # bids) out =
     (case bind_err (getitem aucts (bid - 1)) bid_line of
        Inl e \<Rightarrow> (out, Some e)
      | Inr line \<Rightarrow> print_bids aucts bids (out @ [line]))"

definition print_solution :: "auction \<Rightarrow> int \<times> int list \<Rightarrow> string list \<times> error option" where
  "print_solution a solution =
     (case solution of (opt, bids) \<Rightarrow>
        let benefit = sum_soft_weights (formula a) - opt;
            winning_bids = filter (\<lambda>bid. bid > 0) bids
        in case print_bids (auctions a) winning_bids [''Benefit: '' @ str_int benefit] of
             (out, Some e) \<Rightarrow> (out, Some e)
           | (out, None) \<Rightarrow>
               (out @ [if benefit > sum_soft_weights (formula a)
                       then ''Invalid solution'' else ''Valid solution''], None))"

section \<open>The graph reducer (graph.py)\<close>

record graph =
  edges :: "int list list"
  n_nodes :: int

text \<open>\<^verbatim>\<open>Graph.__init__\<close> without a file.\<close>

definition Graph :: graph where
  "Graph = \<lparr>edges = [], n_nodes = 0\<rparr>"

text \<open>
  The body of the loop of \<^verbatim>\<open>read_stream\<close>, on the node count, the declared edge count
  and the set of edges read so far. An edge is a \<^verbatim>\<open>frozenset\<close> of its two endpoints.
\<close>

definition read_line ::
  "(string \<Rightarrow> error + int) \<Rightarrow> string list \<Rightarrow> int \<times> int \<times> int set set
     \<Rightarrow> error + int \<times> int \<times> int set set" where
  "read_line to_int l st =
     (case st of (nn, ne, es) \<Rightarrow>
        bind_err (getitem l 0) (\<lambda>t.
          if t = ''p'' then
            bind_err (getitem l 2) (\<lambda>x. bind_err (to_int x) (\<lambda>nn'.
            bind_err (getitem l 3) (\<lambda>y. bind_err (to_int y) (\<lambda>ne'.
              Inr (nn', ne', es)))))
          else if t = ''c'' then Inr st
          else
            bind_err (getitem l 1) (\<lambda>x. bind_err (to_int x) (\<lambda>u.
            bind_err (getitem l 2) (\<lambda>y. bind_err (to_int y) (\<lambda>v.
              Inr (nn, ne, insert {u, v} es)))))))"

text \<open>
  \<^verbatim>\<open>read_stream\<close>: the graph read and the warning printed, if any. \<open>iter_set\<close> is the order
  in which the set of edges is iterated and \<open>iter_edge\<close> the order in which one edge is
  (\<^verbatim>\<open>tuple(tuple(x) for x in edges)\<close>).
\<close>

definition read_stream ::
  "(string \<Rightarrow> error + int) \<Rightarrow> (int set set \<Rightarrow> int set list) \<Rightarrow> (int set \<Rightarrow> int list)
     \<Rightarrow> graph \<Rightarrow> string list list \<Rightarrow> error + graph \<times> string list" where
  "read_stream to_int iter_set iter_edge g lines =
     bind_err (for_each (read_line to_int) lines (n_nodes g, - 1, {})) (\<lambda>st.
       case st of (nn, ne, es) \<Rightarrow>
         Inr (g\<lparr>edges := map iter_edge (iter_set es), n_nodes := nn\<rparr>,
              if ne \<noteq> int (card es) then [''Warning incorrect number of edges''] else []))"

text \<open>\<^verbatim>\<open>for n1, n2 in self.edges\<close>: a tuple that has not exactly two items cannot be unpacked.\<close>

definition unpack2 :: "'a list \<Rightarrow> error + 'a \<times> 'a" where
  "unpack2 t = (case t of [x, y] \<Rightarrow> Inr (x, y) | _ \<Rightarrow> Inl ValueError)"

text \<open>\<^verbatim>\<open>nodes[e1 - 1], nodes[e2 - 1]\<close> for the edge \<open>e\<close>.\<close>

definition edge_vars :: "int list \<Rightarrow> int list \<Rightarrow> error + int \<times> int" where
  "edge_vars nodes e =
     bind_err (unpack2 e) (\<lambda>p. case p of (e1, e2) \<Rightarrow>
     bind_err (getitem nodes (e1 - 1)) (\<lambda>v1.
     bind_err (getitem nodes (e2 - 1)) (\<lambda>v2. Inr (v1, v2))))"

text \<open>\<^verbatim>\<open>min_vertex_cover\<close>: the formula handed to the solver, then the whole method.\<close>

definition min_vertex_cover_formula :: "int \<Rightarrow> graph \<Rightarrow> error + wcnf_formula" where
  "min_vertex_cover_formula top_weight g =
     (case new_vars (nat (n_nodes g)) WCNFFormula of (nodes, f0) \<Rightarrow>
        let f1 = fold (\<lambda>n f. add_clause top_weight f [- n] 1) nodes f0
        in for_each (\<lambda>e f.
              bind_err (edge_vars nodes e) (\<lambda>p. case p of (v1, v2) \<Rightarrow>
                Inr (add_clause top_weight f [v1, v2] top_weight)))
             (edges g) f1)"

definition min_vertex_cover ::
  "int \<Rightarrow> (wcnf_formula \<Rightarrow> error + int \<times> int list) \<Rightarrow> graph \<Rightarrow> error + int list" where
  "min_vertex_cover top_weight solve g =
     bind_err (min_vertex_cover_formula top_weight g) (\<lambda>f.
     bind_err (solve f) (\<lambda>r. case r of (opt, model) \<Rightarrow> Inr (filter (\<lambda>n. n > 0) model)))"

text \<open>
  \<^verbatim>\<open>max_clique\<close>. The size \<^verbatim>\<open>n\<close> of the matrix is the variable of the loop over \<^verbatim>\<open>nodes\<close>
  that adds the soft clauses: after the loop it holds the last node, and it is unbound
  when \<^verbatim>\<open>nodes\<close> is empty. A cell of the matrix is \<^verbatim>\<open>None\<close> or 1.
\<close>

definition mark_edge :: "int list \<Rightarrow> int list \<Rightarrow> int option list list \<Rightarrow> error + int option list list" where
  "mark_edge nodes e matrix =
     bind_err (edge_vars nodes e) (\<lambda>p. case p of (a, b) \<Rightarrow>
       let v1 = (if a > b then b else a); v2 = (if a > b then a else b)
       in bind_err (getitem matrix (v1 - 1)) (\<lambda>row.
          bind_err (setitem row (v2 - 1) (Some 1)) (\<lambda>row'.
            setitem matrix (v1 - 1) row')))"

definition non_edge_clause ::
  "int \<Rightarrow> int option list list \<Rightarrow> int \<Rightarrow> int \<Rightarrow> wcnf_formula \<Rightarrow> error + wcnf_formula" where
  "non_edge_clause top_weight matrix index1 index2 f =
     bind_err (getitem matrix index1) (\<lambda>row.
     bind_err (getitem row index2) (\<lambda>cell.
       Inr (if cell \<noteq> Some 1
            then add_clause top_weight f [- (index1 + 1), - (index2 + 1)] top_weight
            else f)))"

definition max_clique_formula :: "int \<Rightarrow> graph \<Rightarrow> error + wcnf_formula" where
  "max_clique_formula top_weight g =
     (case new_vars (nat (n_nodes g)) WCNFFormula of (nodes, f0) \<Rightarrow>
        let f1 = fold (\<lambda>n f. add_clause top_weight f [n] 1) nodes f0
        in if nodes = [] then Inl UnboundLocalError
           else
             let n = last nodes;
                 matrix = replicate (nat n) (replicate (nat n) None)
             in bind_err (for_each (mark_edge nodes) (edges g) matrix) (\<lambda>matrix'.
                  for_each (\<lambda>index1.
                      for_each (non_edge_clause top_weight matrix' index1) [index1 + 1..n - 1])
                    [0..n - 1] f1))"

definition max_clique ::
  "int \<Rightarrow> (wcnf_formula \<Rightarrow> error + int \<times> int list) \<Rightarrow> graph \<Rightarrow> error + int list" where
  "max_clique top_weight solve g =
     bind_err (max_clique_formula top_weight g) (\<lambda>f.
     bind_err (solve f) (\<lambda>r. case r of (opt, model) \<Rightarrow> Inr (filter (\<lambda>n. n > 0) model)))"

text \<open>\<^verbatim>\<open>max_cut\<close>.\<close>

definition max_cut_formula :: "int \<Rightarrow> graph \<Rightarrow> error + wcnf_formula" where
  "max_cut_formula top_weight g =
     (case new_vars (nat (n_nodes g)) WCNFFormula of (nodes, f0) \<Rightarrow>
        for_each (\<lambda>e f.
            bind_err (edge_vars nodes e) (\<lambda>p. case p of (v1, v2) \<Rightarrow>
              Inr (add_clause top_weight (add_clause top_weight f [v1, v2] 1) [- v1, - v2] 1)))
          (edges g) f0)"

definition max_cut ::
  "int \<Rightarrow> (wcnf_formula \<Rightarrow> error + int \<times> int list) \<Rightarrow> graph \<Rightarrow> error + int list" where
  "max_cut top_weight solve g =
     bind_err (max_cut_formula top_weight g) (\<lambda>f.
     bind_err (solve f) (\<lambda>r. case r of (opt, model) \<Rightarrow> Inr (filter (\<lambda>n. n > 0) model)))"

section \<open>Notions the properties are stated with\<close>

text \<open>
  An edge of a graph with nodes \<open>1..n\<close>, as \<^verbatim>\<open>read_stream\<close> stores it: a tuple of two
  nodes of the graph.
\<close>

definition wf_edge :: "int \<Rightarrow> int list \<Rightarrow> bool" where
  "wf_edge n e = (case e of [a, b] \<Rightarrow> 1 \<le> a \<and> a \<le> n \<and> 1 \<le> b \<and> b \<le> n | _ \<Rightarrow> False)"

text \<open>Every endpoint of every stored edge is a node of the graph.\<close>

definition nodes_in_range :: "graph \<Rightarrow> bool" where
  "nodes_in_range g = list_all (list_all (\<lambda>v. 1 \<le> v \<and> v \<le> n_nodes g)) (edges g)"

text \<open>A matrix of \<open>n\<close> rows of \<open>n\<close> cells.\<close>

definition square :: "int \<Rightarrow> 'a list list \<Rightarrow> bool" where
  "square n m = (length m = nat n \<and> list_all (\<lambda>row. length row = nat n) m)"

text \<open>A line of the auction input that is a bid: its first token is neither \<open>a\<close> nor \<open>g\<close>.\<close>

definition is_bid :: "string list \<Rightarrow> bool" where
  "is_bid l = (case l of [] \<Rightarrow> False | t # ts \<Rightarrow> t \<noteq> ''g'' \<and> t \<noteq> ''a'')"

text \<open>Every literal of every clause names an allocated variable.\<close>

definition literals_in_range :: "wcnf_formula \<Rightarrow> bool" where
  "literals_in_range f =
     list_all (list_all (\<lambda>l. 1 \<le> \<bar>l\<bar> \<and> \<bar>l\<bar> \<le> variables f)) (hard f @ map fst (soft f))"

text \<open>
  The formula once the bids are read, from the list of the bid records: the bids priced at
  the top weight give the hard clauses, the others the soft clauses, and each bid gives the
  pairs of its goods with its variable.
\<close>

definition hard_of_bids :: "int \<Rightarrow> (string \<Rightarrow> error + int) \<Rightarrow> string list list \<Rightarrow> int list list" where
  "hard_of_bids top_weight to_int A =
     map (\<lambda>v. [v])
       (filter (\<lambda>v. bid_price to_int (A ! nat (v - 1)) = Inr top_weight) [1..int (length A)])"

definition soft_of_bids ::
  "int \<Rightarrow> (string \<Rightarrow> error + int) \<Rightarrow> string list list \<Rightarrow> (int list \<times> int) list" where
  "soft_of_bids top_weight to_int A =
     map (\<lambda>v. ([v], projr (bid_price to_int (A ! nat (v - 1)))))
       (filter (\<lambda>v. bid_price to_int (A ! nat (v - 1)) \<noteq> Inr top_weight) [1..int (length A)])"

definition goods_of_bids :: "string list list \<Rightarrow> (string \<times> int) set" where
  "goods_of_bids A = (\<Union>i < length A. (\<lambda>g. (g, int i + 1)) ` set (bid_goods (A ! i)))"

text \<open>The invariant of the loop of \<^verbatim>\<open>parse_input_stream\<close>.\<close>

definition bids_read :: "int \<Rightarrow> (string \<Rightarrow> error + int) \<Rightarrow> auction \<Rightarrow> bool" where
  "bids_read top_weight to_int a =
     (variables (formula a) = int (length (auctions a))
      \<and> list_all is_bid (auctions a)
      \<and> list_all (\<lambda>r. \<not> isl (bid_price to_int r)) (auctions a)
      \<and> goods a = goods_of_bids (auctions a)
      \<and> hard (formula a) = hard_of_bids top_weight to_int (auctions a)
      \<and> soft (formula a) = soft_of_bids top_weight to_int (auctions a))"

text \<open>Appending to a list of clauses the clause of \<open>x\<close>, when \<open>x\<close> qualifies and the clause is new.\<close>

definition add_new :: "('x \<Rightarrow> bool) \<Rightarrow> ('x \<Rightarrow> 'c) \<Rightarrow> 'x \<Rightarrow> 'c list \<Rightarrow> 'c list" where
  "add_new P c x s = (if P x \<and> c x \<notin> set s then s @ [c x] else s)"

text \<open>Two recorded pairs with the same good, the first of the smaller variable; their clause.\<close>

definition clash :: "(string \<times> int) \<times> (string \<times> int) \<Rightarrow> bool" where
  "clash p = (fst (fst p) = fst (snd p) \<and> snd (fst p) < snd (snd p))"

definition pair_clause :: "(string \<times> int) \<times> (string \<times> int) \<Rightarrow> int list" where
  "pair_clause p = [- snd (fst p), - snd (snd p)]"

text \<open>The clause \<^verbatim>\<open>check_all_auctioneers_win\<close> builds for one auctioneer.\<close>

definition clause_of :: "string list list \<Rightarrow> string \<Rightarrow> int list" where
  "clause_of A who = map (\<lambda>r. projr (list_index A r) + 1) (filter (\<lambda>r. hd r = who) A)"

text \<open>A formula over the nodes \<open>1..n\<close> whose literals all name one of them.\<close>

definition ranged :: "int \<Rightarrow> wcnf_formula \<Rightarrow> bool" where
  "ranged n f = (literals_in_range f \<and> variables f = int (nat n))"

text \<open>Two nodes with a stored edge between them, in either order.\<close>

definition adjacent :: "graph \<Rightarrow> int \<Rightarrow> int \<Rightarrow> bool" where
  "adjacent g a b = ([a, b] \<in> set (edges g) \<or> [b, a] \<in> set (edges g))"

text \<open>An assignment cuts an edge when it makes exactly one of its endpoints true.\<close>

definition cuts :: "int list \<Rightarrow> int list \<Rightarrow> bool" where
  "cuts model e = ((e ! 0 \<in> set model) \<noteq> (e ! 1 \<in> set model))"

section \<open>Lemmas on the builtins and the formula\<close>

lemma new_vars_upto:
  "new_vars k f = ([variables f + 1..variables f + int k], f\<lparr>variables := variables f + int k\<rparr>)"
proof (induction k arbitrary: f)
  case 0
  show ?case by simp
next
  case (Suc k)
  have "[variables f + 1..variables f + int (Suc k)]
          = (variables f + 1) # [variables f + 1 + 1..variables f + int (Suc k)]"
    by (rule upto_rec1) simp
  then show ?case
    by (simp add: Suc new_var_def ac_simps)
qed

lemma new_vars_init:
  "new_vars (nat n) WCNFFormula = ([1..n], \<lparr>variables = int (nat n), hard = [], soft = []\<rparr>)"
proof -
  have "[1..int (nat n)] = [1..n]" by (cases "0 \<le> n") simp_all
  then show ?thesis by (simp add: new_vars_upto WCNFFormula_def)
qed

lemma getitem_upto: "1 \<le> a \<Longrightarrow> a \<le> n \<Longrightarrow> getitem [1..n] (a - 1) = Inr a"
  by (simp add: getitem_def)

lemma wf_edgeE: "wf_edge n e \<Longrightarrow> \<exists>a b. e = [a, b] \<and> 1 \<le> a \<and> a \<le> n \<and> 1 \<le> b \<and> b \<le> n"
  by (auto simp: wf_edge_def split: list.splits)

lemma edge_vars_wf: "wf_edge n e \<Longrightarrow> edge_vars [1..n] e = Inr (e ! 0, e ! 1) \<and> e = [e ! 0, e ! 1]"
  by (auto dest!: wf_edgeE simp: edge_vars_def unpack2_def getitem_upto)

lemma add_clause_top:
  "add_clause top_weight f c top_weight = f\<lparr>hard := hard f @ [c]\<rparr>"
  by (simp add: add_clause_def)

lemma fold_soft:
  "w \<noteq> top_weight \<Longrightarrow>
   fold (\<lambda>n f. add_clause top_weight f (c n) w) ns f = f\<lparr>soft := soft f @ map (\<lambda>n. (c n, w)) ns\<rparr>"
  by (induction ns arbitrary: f) (simp_all add: add_clause_def)

lemma upto_nat_int: "[1..int (nat n)] = [1..n]"
  by (cases "0 \<le> n") simp_all

lemma getitem_first: "r \<noteq> [] \<Longrightarrow> getitem r 0 = Inr (hd r)"
  by (cases r) (simp_all add: getitem_def)

lemma getitem_last: "r \<noteq> [] \<Longrightarrow> getitem r (- 1) = Inr (last r)"
  by (cases r rule: rev_cases) (simp_all add: getitem_def nth_append)

lemma getitem_pos: "0 < b \<Longrightarrow> b \<le> int (length xs) \<Longrightarrow> getitem xs (b - 1) = Inr (xs ! nat (b - 1))"
  by (simp add: getitem_def)


lemma getitem_nat: "i < length xs \<Longrightarrow> getitem xs (int i) = Inr (xs ! i)"
  by (simp add: getitem_def)

lemma bind_err_Inr: "bind_err m k = Inr y \<Longrightarrow> \<exists>x. m = Inr x \<and> k x = Inr y"
  by (cases m) simp_all


lemma for_each_fails:
  "x \<in> set xs \<Longrightarrow> (\<And>s. \<exists>e. body x s = Inl e) \<Longrightarrow> \<exists>e. for_each body xs s = Inl e"
proof (induction xs arbitrary: s)
  case Nil
  then show ?case by simp
next
  case (Cons y ys)
  show ?case
  proof (cases "body y s")
    case (Inl e)
    then show ?thesis by simp
  next
    case (Inr s')
    have "x \<in> set ys"
    proof (rule ccontr)
      assume "x \<notin> set ys"
      with Cons.prems(1) have "x = y" by simp
      with Cons.prems(2)[of s] Inr show False by simp
    qed
    from Cons.IH[OF this Cons.prems(2)] Inr show ?thesis by simp
  qed
qed

lemma for_each_raises:
  assumes "I s"
    and "\<And>x s. x \<in> set xs \<Longrightarrow> I s \<Longrightarrow> (\<exists>s'. body x s = Inr s' \<and> I s') \<or> body x s = Inl err"
    and "x0 \<in> set xs" and "\<And>s. body x0 s = Inl err"
  shows "for_each body xs s = Inl err"
  using assms
proof (induction xs arbitrary: s)
  case Nil
  then show ?case by simp
next
  case (Cons y ys)
  from Cons.prems(2)[of y s] Cons.prems(1)
  consider s' where "body y s = Inr s'" "I s'" | "body y s = Inl err" by auto
  then show ?case
  proof cases
    case 1
    have "x0 \<in> set ys"
    proof (rule ccontr)
      assume "x0 \<notin> set ys"
      with Cons.prems(3) have "x0 = y" by simp
      with Cons.prems(4)[of s] 1 show False by simp
    qed
    have "for_each body ys s' = Inl err"
      by (rule Cons.IH[OF 1(2) _ \<open>x0 \<in> set ys\<close> Cons.prems(4)]) (simp add: Cons.prems(2))
    with 1 show ?thesis by simp
  next
    case 2
    then show ?thesis by simp
  qed
qed

lemma unpack2_short: "length e \<noteq> 2 \<Longrightarrow> unpack2 e = Inl ValueError"
  by (auto simp: unpack2_def split: list.split)

lemma edge_vars_short: "length e \<noteq> 2 \<Longrightarrow> edge_vars nodes e = Inl ValueError"
  by (simp add: edge_vars_def unpack2_short)

lemma in_range_edge:
  "\<forall>v \<in> set e. 1 \<le> v \<and> v \<le> n \<Longrightarrow> length e = 2 \<Longrightarrow> wf_edge n e"
  by (auto simp: wf_edge_def length_Suc_conv numeral_2_eq_2 split: list.split)

lemma last_upto: "1 \<le> n \<Longrightarrow> last [1..n] = n"
  using upto_rec2[of 1 n] by simp

lemma getitem_in: "0 \<le> i \<Longrightarrow> i < int (length xs) \<Longrightarrow> getitem xs i = Inr (xs ! nat i)"
  by (simp add: getitem_def)

lemma setitem_in: "0 \<le> i \<Longrightarrow> i < int (length xs) \<Longrightarrow> setitem xs i v = Inr (xs[nat i := v])"
  by (simp add: setitem_def)


section \<open>Assignments and their cost\<close>

lemma complete_nth:
  assumes "map abs m = [1..n]" "i < length m"
  shows "\<bar>m ! i\<bar> = 1 + int i"
proof -
  have len: "length m = length [1..n]" using assms(1) by (metis length_map)
  have "\<bar>m ! i\<bar> = (map abs m) ! i" using assms(2) by simp
  also have "\<dots> = [1..n] ! i" using assms(1) by simp
  also have "\<dots> = 1 + int i" using assms(2) len by (simp add: nth_upto)
  finally show ?thesis .
qed

lemma complete_length:
  assumes "map abs m = [1..n]"
  shows "length m = nat n"
proof -
  have "length m = length [1..n]" using assms by (metis length_map)
  then show ?thesis by simp
qed

lemma complete_neg_iff:
  assumes c: "map abs m = [1..n]" and a: "1 \<le> a" "a \<le> n"
  shows "(- a \<in> set m) = (a \<notin> set m)"
proof -
  have len: "length m = nat n" by (rule complete_length[OF c])
  let ?i = "nat (a - 1)"
  have i: "?i < length m" using a len by simp
  have "\<bar>m ! ?i\<bar> = a" using complete_nth[OF c i] a by simp
  then have "m ! ?i = a \<or> m ! ?i = - a" by linarith
  then have some: "a \<in> set m \<or> - a \<in> set m" using i by (metis nth_mem)
  have "\<not> (a \<in> set m \<and> - a \<in> set m)"
  proof
    assume "a \<in> set m \<and> - a \<in> set m"
    then obtain j k where j: "j < length m" "m ! j = a" and k: "k < length m" "m ! k = - a"
      by (auto simp: in_set_conv_nth)
    from complete_nth[OF c j(1)] j(2) a have "a = 1 + int j" by simp
    moreover from complete_nth[OF c k(1)] k(2) a have "a = 1 + int k" by simp
    ultimately have "j = k" by simp
    with j k a show False by simp
  qed
  with some show ?thesis by blast
qed

lemma falsified_append:
  "falsified_weight m (xs @ ys) = falsified_weight m xs + falsified_weight m ys"
  by (simp add: falsified_weight_def)

section \<open>Minimum vertex cover\<close>

lemma for_each_hard:
  "list_all (wf_edge n) es \<Longrightarrow>
   for_each (\<lambda>e f. bind_err (edge_vars [1..n] e) (\<lambda>p. case p of (v1, v2) \<Rightarrow>
                Inr (add_clause top_weight f [v1, v2] top_weight))) es f
     = Inr (f\<lparr>hard := hard f @ es\<rparr>)"
proof (induction es arbitrary: f)
  case Nil
  show ?case by simp
next
  case (Cons e es)
  from Cons.prems have e: "wf_edge n e" and es: "list_all (wf_edge n) es" by simp_all
  from edge_vars_wf[OF e] have ev: "edge_vars [1..n] e = Inr (e ! 0, e ! 1)"
    and ee: "[e ! 0, e ! 1] = e" by simp_all
  have "for_each (\<lambda>e f. bind_err (edge_vars [1..n] e) (\<lambda>p. case p of (v1, v2) \<Rightarrow>
                Inr (add_clause top_weight f [v1, v2] top_weight))) (e # es) f
      = Inr ((add_clause top_weight f e top_weight)
               \<lparr>hard := hard (add_clause top_weight f e top_weight) @ es\<rparr>)"
    by (simp only: for_each.simps ev bind_err.simps prod.case sum.case ee Cons.IH[OF es])
  then show ?case
    by (simp add: add_clause_top)
qed

text \<open>
  Claim C5. For a graph whose stored edges are pairs of nodes of the graph, and a top
  weight other than 1, the formula of \<^verbatim>\<open>min_vertex_cover\<close> has one variable per node, the
  soft clauses \<open>[-node]\<close> of weight 1, one per node in node order, and the hard clauses
  \<open>[node_a, node_b]\<close>, one per stored edge in edge order and nothing else; the method
  returns the positive literals of the solver's assignment, or the solver's failure.
\<close>

theorem min_vertex_cover_encoding:
  assumes "top_weight \<noteq> 1" and "list_all (wf_edge (n_nodes g)) (edges g)"
  shows "min_vertex_cover_formula top_weight g =
           Inr \<lparr>variables = int (nat (n_nodes g)), hard = edges g,
                soft = map (\<lambda>n. ([- n], 1)) [1..n_nodes g]\<rparr>
         \<and> min_vertex_cover top_weight solve g =
             (case solve \<lparr>variables = int (nat (n_nodes g)), hard = edges g,
                          soft = map (\<lambda>n. ([- n], 1)) [1..n_nodes g]\<rparr> of
                Inl e \<Rightarrow> Inl e
              | Inr r \<Rightarrow> Inr (filter (\<lambda>n. 0 < n) (snd r)))"
proof -
  have f: "min_vertex_cover_formula top_weight g =
           Inr \<lparr>variables = int (nat (n_nodes g)), hard = edges g,
                soft = map (\<lambda>n. ([- n], 1)) [1..n_nodes g]\<rparr>"
    using assms(1)
    by (simp add: min_vertex_cover_formula_def new_vars_init fold_soft for_each_hard[OF assms(2)])
  show ?thesis
    by (simp add: f min_vertex_cover_def split: sum.split prod.split)
qed

theorem min_vertex_cover_encoding_witness:
  "(0::int) \<noteq> 1
   \<and> list_all (wf_edge 3) [[1, 2], [2, 3], [1, 3]]
   \<and> min_vertex_cover_formula 0 \<lparr>edges = [[1, 2], [2, 3], [1, 3]], n_nodes = 3\<rparr> =
       Inr \<lparr>variables = 3, hard = [[1, 2], [2, 3], [1, 3]],
            soft = [([- 1], 1), ([- 2], 1), ([- 3], 1)]\<rparr>
   \<and> min_vertex_cover 0 (\<lambda>f. Inr (2, [1, 2, - 3]))
         \<lparr>edges = [[1, 2], [2, 3], [1, 3]], n_nodes = 3\<rparr> = Inr [1, 2]"
proof -
  have h1: "(0::int) \<noteq> 1" by simp
  have h2: "list_all (wf_edge (n_nodes \<lparr>edges = [[1, 2], [2, 3], [1, 3]], n_nodes = 3\<rparr>))
              (edges \<lparr>edges = [[1, 2], [2, 3], [1, 3]], n_nodes = 3\<rparr>)"
    by (simp add: wf_edge_def)
  have u: "[1..3] = [1, 2, 3 :: int]" by code_simp
  show ?thesis
    using min_vertex_cover_encoding[OF h1 h2, of "\<lambda>f. Inr (2, [1, 2, - 3])"] h2
    by (simp add: u)
qed

section \<open>Maximum cut\<close>

lemma edge_falsified:
  assumes c: "map abs m = [1..n]" and e: "wf_edge n e"
  shows "falsified_weight m [(e, 1), (map uminus e, 1)] = (if cuts m e then 0 else 1)"
proof -
  from wf_edgeE[OF e] obtain a b where ab: "e = [a, b]" "1 \<le> a" "a \<le> n" "1 \<le> b" "b \<le> n"
    by blast
  have na: "(- a \<in> set m) = (a \<notin> set m)" by (rule complete_neg_iff[OF c ab(2,3)])
  have nb: "(- b \<in> set m) = (b \<notin> set m)" by (rule complete_neg_iff[OF c ab(4,5)])
  show ?thesis
    by (auto simp: falsified_weight_def satisfied_def cuts_def ab(1) na nb)
qed

lemma edges_falsified:
  assumes c: "map abs m = [1..n]"
  shows "list_all (wf_edge n) es \<Longrightarrow>
     falsified_weight m (concat (map (\<lambda>e. [(e, 1), (map uminus e, 1)]) es))
       = int (length (filter (\<lambda>e. \<not> cuts m e) es))"
proof (induction es)
  case Nil
  show ?case by (simp add: falsified_weight_def)
next
  case (Cons e es)
  from Cons.prems have e: "wf_edge n e" and es: "list_all (wf_edge n) es" by simp_all
  have "falsified_weight m (concat (map (\<lambda>e. [(e, 1), (map uminus e, 1)]) (e # es)))
      = falsified_weight m ([(e, 1), (map uminus e, 1)]
          @ concat (map (\<lambda>e. [(e, 1), (map uminus e, 1)]) es))"
    by simp
  also have "\<dots> = (if cuts m e then 0 else 1) + int (length (filter (\<lambda>e. \<not> cuts m e) es))"
    by (simp only: falsified_append edge_falsified[OF c e] Cons.IH[OF es])
  also have "\<dots> = int (length (filter (\<lambda>e. \<not> cuts m e) (e # es)))"
    by simp
  finally show ?case .
qed

lemma for_each_cut:
  "1 \<noteq> top_weight \<Longrightarrow> list_all (wf_edge n) es \<Longrightarrow>
   for_each (\<lambda>e f. bind_err (edge_vars [1..n] e) (\<lambda>p. case p of (v1, v2) \<Rightarrow>
              Inr (add_clause top_weight (add_clause top_weight f [v1, v2] 1) [- v1, - v2] 1))) es f
     = Inr (f\<lparr>soft := soft f @ concat (map (\<lambda>e. [(e, 1), (map uminus e, 1)]) es)\<rparr>)"
proof (induction es arbitrary: f)
  case Nil
  show ?case by simp
next
  case (Cons e es)
  from Cons.prems have e: "wf_edge n e" and es: "list_all (wf_edge n) es" by simp_all
  from edge_vars_wf[OF e] have ev: "edge_vars [1..n] e = Inr (e ! 0, e ! 1)"
    and ee: "[e ! 0, e ! 1] = e" by simp_all
  have me: "[- (e ! 0), - (e ! 1)] = map uminus e" using ee by (metis list.simps(8,9))
  let ?f' = "add_clause top_weight (add_clause top_weight f e 1) (map uminus e) 1"
  have "for_each (\<lambda>e f. bind_err (edge_vars [1..n] e) (\<lambda>p. case p of (v1, v2) \<Rightarrow>
              Inr (add_clause top_weight (add_clause top_weight f [v1, v2] 1) [- v1, - v2] 1)))
          (e # es) f
      = Inr (?f'\<lparr>soft := soft ?f' @ concat (map (\<lambda>e. [(e, 1), (map uminus e, 1)]) es)\<rparr>)"
    by (simp only: for_each.simps ev bind_err.simps prod.case sum.case ee me
          Cons.IH[OF Cons.prems(1) es])
  then show ?case using Cons.prems(1)
    by (simp add: add_clause_def)
qed

text \<open>
  Claim C6, as amended. For a graph whose stored edges are pairs of nodes of the graph, and
  a top weight other than 1, the formula of \<^verbatim>\<open>max_cut\<close> has one variable per node, no hard
  clause, and for each stored edge, in edge order, the two soft clauses \<open>[node_a, node_b]\<close>
  and \<open>[-node_a, -node_b]\<close> of weight 1 and nothing else. Under an assignment that gives
  every variable one truth value, the two clauses of an edge cost 0 when the endpoints
  differ in truth value and 1 when they agree, so the cost of the assignment is the number
  of edges it does not cut.
\<close>

theorem max_cut_encoding:
  assumes "top_weight \<noteq> 1" and "list_all (wf_edge (n_nodes g)) (edges g)"
  shows "\<exists>f. max_cut_formula top_weight g = Inr f
           \<and> variables f = int (nat (n_nodes g)) \<and> hard f = []
           \<and> soft f = concat (map (\<lambda>e. [(e, 1), (map uminus e, 1)]) (edges g))
           \<and> (\<forall>m. complete_assignment f m \<longrightarrow>
                 (\<forall>e \<in> set (edges g).
                     falsified_weight m [(e, 1), (map uminus e, 1)] = (if cuts m e then 0 else 1))
                 \<and> cost f m = int (length (filter (\<lambda>e. \<not> cuts m e) (edges g))))"
proof -
  let ?f = "\<lparr>variables = int (nat (n_nodes g)), hard = [],
             soft = concat (map (\<lambda>e. [(e, 1), (map uminus e, 1)]) (edges g))\<rparr>"
  have f: "max_cut_formula top_weight g = Inr ?f"
    using assms(1)
    by (simp add: max_cut_formula_def new_vars_init for_each_cut[OF _ assms(2)])
  have "(\<forall>e \<in> set (edges g).
            falsified_weight m [(e, 1), (map uminus e, 1)] = (if cuts m e then 0 else 1))
         \<and> cost ?f m = int (length (filter (\<lambda>e. \<not> cuts m e) (edges g)))"
    if "complete_assignment ?f m" for m
  proof -
    from that have c: "map abs m = [1..n_nodes g]"
      by (simp add: complete_assignment_def upto_nat_int)
    show ?thesis
      using assms(2) edge_falsified[OF c] edges_falsified[OF c assms(2)]
      by (simp add: cost_def list_all_iff)
  qed
  with f show ?thesis by simp
qed

theorem max_cut_encoding_witness:
  "(0::int) \<noteq> 1
   \<and> list_all (wf_edge 3) [[1, 2], [2, 3], [1, 3]]
   \<and> max_cut_formula 0 \<lparr>edges = [[1, 2], [2, 3], [1, 3]], n_nodes = 3\<rparr> =
       Inr \<lparr>variables = 3, hard = [],
            soft = [([1, 2], 1), ([- 1, - 2], 1), ([2, 3], 1), ([- 2, - 3], 1),
                    ([1, 3], 1), ([- 1, - 3], 1)]\<rparr>
   \<and> complete_assignment
        \<lparr>variables = 3, hard = [],
         soft = [([1, 2], 1), ([- 1, - 2], 1), ([2, 3], 1), ([- 2, - 3], 1),
                 ([1, 3], 1), ([- 1, - 3], 1)]\<rparr> [1, - 2, - 3]
   \<and> cost \<lparr>variables = 3, hard = [],
            soft = [([1, 2], 1), ([- 1, - 2], 1), ([2, 3], 1), ([- 2, - 3], 1),
                    ([1, 3], 1), ([- 1, - 3], 1)]\<rparr> [1, - 2, - 3] = 1
   \<and> falsified_weight [1, - 2, - 3] [([1, 2], 1), ([- 1, - 2], 1)] = 0
   \<and> falsified_weight [1, - 2, - 3] [([2, 3], 1), ([- 2, - 3], 1)] = 1"
proof -
  let ?g = "\<lparr>edges = [[1, 2], [2, 3], [1, 3]], n_nodes = 3\<rparr>"
  let ?f = "\<lparr>variables = 3, hard = [],
             soft = [([1, 2], 1), ([- 1, - 2], 1), ([2, 3], 1), ([- 2, - 3], 1),
                     ([1, 3], 1), ([- 1, - 3], 1)]\<rparr>"
  have h1: "(0::int) \<noteq> 1" by simp
  have h2: "list_all (wf_edge (n_nodes ?g)) (edges ?g)"
    by (simp add: wf_edge_def)
  have u: "[1..3] = [1, 2, 3 :: int]" by code_simp
  have c: "complete_assignment ?f [1, - 2, - 3]"
    by (simp add: complete_assignment_def u)
  from max_cut_encoding[OF h1 h2] obtain f where f: "max_cut_formula 0 ?g = Inr f"
    "soft f = concat (map (\<lambda>e. [(e, 1), (map uminus e, 1)]) (edges ?g))"
    "variables f = int (nat (n_nodes ?g))" "hard f = []"
    "\<forall>m. complete_assignment f m \<longrightarrow>
       (\<forall>e \<in> set (edges ?g).
           falsified_weight m [(e, 1), (map uminus e, 1)] = (if cuts m e then 0 else 1))
       \<and> cost f m = int (length (filter (\<lambda>e. \<not> cuts m e) (edges ?g)))"
    by blast
  have ff: "f = ?f" using f(2,3,4) by simp
  from f(5) c ff have
    "(\<forall>e \<in> set (edges ?g).
        falsified_weight [1, - 2, - 3] [(e, 1), (map uminus e, 1)]
          = (if cuts [1, - 2, - 3] e then 0 else 1))
     \<and> cost ?f [1, - 2, - 3] = int (length (filter (\<lambda>e. \<not> cuts [1, - 2, - 3] e) (edges ?g)))"
    by blast
  then show ?thesis
    using h2 f(1) ff c by (simp add: cuts_def)
qed

text \<open>
  Claim C6 as stated fails on the graph with the single edge between nodes 1 and 2: the
  assignment that makes 1 true and 2 false falsifies neither clause of the edge (cost 0,
  not 1), and the assignment that makes both true falsifies one (cost 1, not 2).
\<close>

theorem max_cut_edge_cost_counterexample:
  "max_cut_formula 0 \<lparr>edges = [[1, 2]], n_nodes = 2\<rparr> =
     Inr \<lparr>variables = 2, hard = [], soft = [([1, 2], 1), ([- 1, - 2], 1)]\<rparr>
   \<and> cost \<lparr>variables = 2, hard = [], soft = [([1, 2], 1), ([- 1, - 2], 1)]\<rparr> [1, - 2] = 0
   \<and> cost \<lparr>variables = 2, hard = [], soft = [([1, 2], 1), ([- 1, - 2], 1)]\<rparr> [1, 2] = 1"
  by code_simp

section \<open>Self-loops\<close>

lemma read_line_mono:
  assumes "read_line to_int l (nn, ne, es) = Inr (nn', ne', es')"
  shows "es \<subseteq> es'"
  using assms
  by (auto simp: read_line_def split: if_splits dest!: bind_err_Inr)

lemma read_line_self_loop:
  assumes "read_line to_int l (nn, ne, es) = Inr (nn', ne', es')"
    and "3 \<le> length l" "l ! 0 \<noteq> ''p''" "l ! 0 \<noteq> ''c''" "l ! 1 = l ! 2"
  shows "\<exists>a. to_int (l ! 1) = Inr a \<and> {a} \<in> es'"
proof -
  have g0: "getitem l 0 = Inr (l ! 0)" using assms(2) by (auto simp: getitem_def)
  have g1: "getitem l 1 = Inr (l ! 1)" using assms(2) by (auto simp: getitem_def)
  have g2: "getitem l 2 = Inr (l ! 2)" using assms(2) by (auto simp: getitem_def)
  show ?thesis
    using assms(1) assms(3,4,5)
    by (auto simp: read_line_def g0 g1 g2 dest!: bind_err_Inr)
qed

lemma read_lines_mono:
  "for_each (read_line to_int) ls st = Inr st' \<Longrightarrow> snd (snd st) \<subseteq> snd (snd st')"
proof (induction ls arbitrary: st)
  case Nil
  then show ?case by simp
next
  case (Cons l ls)
  from Cons.prems obtain st1 where s1: "read_line to_int l st = Inr st1"
    and s2: "for_each (read_line to_int) ls st1 = Inr st'"
    by (auto split: sum.splits)
  have "snd (snd st) \<subseteq> snd (snd st1)"
    using s1 read_line_mono[of to_int l "fst st" "fst (snd st)" "snd (snd st)" "fst st1" "fst (snd st1)" "snd (snd st1)"]
    by simp
  with Cons.IH[OF s2] show ?case by blast
qed

lemma read_lines_self_loop:
  "for_each (read_line to_int) ls st = Inr st' \<Longrightarrow> l \<in> set ls \<Longrightarrow>
   3 \<le> length l \<Longrightarrow> l ! 0 \<noteq> ''p'' \<Longrightarrow> l ! 0 \<noteq> ''c'' \<Longrightarrow> l ! 1 = l ! 2 \<Longrightarrow>
   \<exists>a. to_int (l ! 1) = Inr a \<and> {a} \<in> snd (snd st')"
proof (induction ls arbitrary: st)
  case Nil
  then show ?case by simp
next
  case (Cons l0 ls)
  from Cons.prems(1) obtain st1 where s1: "read_line to_int l0 st = Inr st1"
    and s2: "for_each (read_line to_int) ls st1 = Inr st'"
    by (auto split: sum.splits)
  show ?case
  proof (cases "l = l0")
    case True
    from s1 True have "read_line to_int l (fst st, fst (snd st), snd (snd st))
        = Inr (fst st1, fst (snd st1), snd (snd st1))" by simp
    from read_line_self_loop[OF this Cons.prems(3,4,5,6)]
    obtain a where a: "to_int (l ! 1) = Inr a" "{a} \<in> snd (snd st1)" by blast
    with read_lines_mono[OF s2] show ?thesis by blast
  next
    case False
    with Cons.prems(2) have "l \<in> set ls" by simp
    from Cons.IH[OF s2 this Cons.prems(3,4,5,6)] show ?thesis .
  qed
qed

lemma iter_singleton: "set xs = {a} \<Longrightarrow> distinct xs \<Longrightarrow> xs = [a]"
  by (metis distinct.simps(2) empty_iff empty_set insert_iff list.exhaust list.set_intros(1) list.set_intros(2))

lemma mark_edge_wf:
  assumes e: "wf_edge n e" and m: "square n m"
  shows "mark_edge [1..n] e m =
           Inr (m[nat (min (e ! 0) (e ! 1) - 1) :=
                  (m ! nat (min (e ! 0) (e ! 1) - 1))[nat (max (e ! 0) (e ! 1) - 1) := Some 1]])"
proof -
  from wf_edgeE[OF e] obtain a b where ab: "e = [a, b]" "1 \<le> a" "a \<le> n" "1 \<le> b" "b \<le> n"
    by blast
  from edge_vars_wf[OF e] ab(1) have ev: "edge_vars [1..n] e = Inr (a, b)" by simp
  let ?v1 = "if a > b then b else a" and ?v2 = "if a > b then a else b"
  have v: "1 \<le> ?v1" "?v1 \<le> n" "1 \<le> ?v2" "?v2 \<le> n" using ab by simp_all
  have mm: "?v1 = min a b" "?v2 = max a b" by simp_all
  have len: "length m = nat n" using m by (simp add: square_def list_all_iff)
  have i: "0 \<le> ?v1 - 1" "?v1 - 1 < int (length m)" using v len by simp_all
  have "m ! nat (?v1 - 1) \<in> set m" using i by simp
  then have "length (m ! nat (?v1 - 1)) = nat n" using m by (simp add: square_def list_all_iff)
  then have j: "0 \<le> ?v2 - 1" "?v2 - 1 < int (length (m ! nat (?v1 - 1)))" using v by simp_all
  have "mark_edge [1..n] e m =
     Inr (m[nat (?v1 - 1) := (m ! nat (?v1 - 1))[nat (?v2 - 1) := Some 1]])"
    unfolding mark_edge_def ev bind_err.simps prod.case Let_def
    by (simp only: getitem_in[OF i] bind_err.simps setitem_in[OF j] setitem_in[OF i])
  then show ?thesis
    unfolding mm using ab(1) by simp
qed

lemma square_mark:
  assumes m: "square n m"
  shows "square n (m[i := (m ! i)[j := v]])"
proof -
  have "length row = nat n" if "row \<in> set (m[i := (m ! i)[j := v]])" for row
  proof (cases "i < length m")
    case True
    from that set_update_subset_insert[of m i "(m ! i)[j := v]"]
    have "row = (m ! i)[j := v] \<or> row \<in> set m" by blast
    then show ?thesis using m True by (auto simp: square_def list_all_iff)
  next
    case False
    then have "m[i := (m ! i)[j := v]] = m" by (simp add: list_update_beyond)
    with that show ?thesis using m by (simp add: square_def list_all_iff)
  qed
  then show ?thesis using m by (simp add: square_def list_all_iff)
qed

lemma mark_edge_step:
  "wf_edge n e \<Longrightarrow> square n m \<Longrightarrow> \<exists>m'. mark_edge [1..n] e m = Inr m' \<and> square n m'"
  by (simp add: mark_edge_wf square_mark)

lemma square_replicate: "square n (replicate (nat n) (replicate (nat n) x))"
  by (simp add: square_def list_all_iff)

lemma min_vertex_cover_formula_fails:
  assumes "e \<in> set (edges g)" "length e \<noteq> 2"
  shows "\<exists>err. min_vertex_cover_formula top_weight g = Inl err"
  unfolding min_vertex_cover_formula_def new_vars_init prod.case Let_def
  by (rule for_each_fails[OF assms(1)]) (simp add: edge_vars_short[OF assms(2)])

lemma max_cut_formula_fails:
  assumes "e \<in> set (edges g)" "length e \<noteq> 2"
  shows "\<exists>err. max_cut_formula top_weight g = Inl err"
  unfolding max_cut_formula_def new_vars_init prod.case Let_def
  by (rule for_each_fails[OF assms(1)]) (simp add: edge_vars_short[OF assms(2)])

lemma max_clique_formula_fails:
  assumes "e \<in> set (edges g)" "length e \<noteq> 2"
  shows "\<exists>err. max_clique_formula top_weight g = Inl err"
proof (cases "n_nodes g < 1")
  case True
  then show ?thesis by (simp add: max_clique_formula_def new_vars_init)
next
  case False
  have "\<exists>err. for_each (mark_edge [1..n_nodes g]) (edges g) m = Inl err" for m
    by (rule for_each_fails[OF assms(1)]) (simp add: mark_edge_def edge_vars_short[OF assms(2)])
  then obtain err where
    "for_each (mark_edge [1..n_nodes g]) (edges g)
       (replicate (nat (last [1..n_nodes g])) (replicate (nat (last [1..n_nodes g])) None)) = Inl err"
    by blast
  then show ?thesis using False
    by (simp add: max_clique_formula_def new_vars_init Let_def)
qed

lemma nodes_in_rangeD:
  "nodes_in_range g \<Longrightarrow> e \<in> set (edges g) \<Longrightarrow> length e = 2 \<Longrightarrow> wf_edge (n_nodes g) e"
  by (rule in_range_edge) (auto simp: nodes_in_range_def list_all_iff)

lemma min_vertex_cover_formula_unpack:
  assumes r: "nodes_in_range g" and e: "e \<in> set (edges g)" "length e \<noteq> 2"
  shows "min_vertex_cover_formula top_weight g = Inl ValueError"
  unfolding min_vertex_cover_formula_def new_vars_init prod.case Let_def
proof (rule for_each_raises[where I = "\<lambda>f. True" and ?x0.0 = e])
  fix x s assume x: "x \<in> set (edges g)"
  show "(\<exists>s'. bind_err (edge_vars [1..n_nodes g] x)
              (\<lambda>p. case p of (v1, v2) \<Rightarrow> Inr (add_clause top_weight s [v1, v2] top_weight)) = Inr s' \<and> True)
        \<or> bind_err (edge_vars [1..n_nodes g] x)
              (\<lambda>p. case p of (v1, v2) \<Rightarrow> Inr (add_clause top_weight s [v1, v2] top_weight)) = Inl ValueError"
  proof (cases "length x = 2")
    case True
    from edge_vars_wf[OF nodes_in_rangeD[OF r x True]] show ?thesis by simp
  next
    case False
    then show ?thesis by (simp add: edge_vars_short)
  qed
qed (simp_all add: e edge_vars_short)

lemma max_cut_formula_unpack:
  assumes r: "nodes_in_range g" and e: "e \<in> set (edges g)" "length e \<noteq> 2"
  shows "max_cut_formula top_weight g = Inl ValueError"
  unfolding max_cut_formula_def new_vars_init prod.case Let_def
proof (rule for_each_raises[where I = "\<lambda>f. True" and ?x0.0 = e])
  fix x s assume x: "x \<in> set (edges g)"
  show "(\<exists>s'. bind_err (edge_vars [1..n_nodes g] x)
              (\<lambda>p. case p of (v1, v2) \<Rightarrow>
                 Inr (add_clause top_weight (add_clause top_weight s [v1, v2] 1) [- v1, - v2] 1)) = Inr s' \<and> True)
        \<or> bind_err (edge_vars [1..n_nodes g] x)
              (\<lambda>p. case p of (v1, v2) \<Rightarrow>
                 Inr (add_clause top_weight (add_clause top_weight s [v1, v2] 1) [- v1, - v2] 1)) = Inl ValueError"
  proof (cases "length x = 2")
    case True
    from edge_vars_wf[OF nodes_in_rangeD[OF r x True]] show ?thesis by simp
  next
    case False
    then show ?thesis by (simp add: edge_vars_short)
  qed
qed (simp_all add: e edge_vars_short)

lemma max_clique_formula_unpack:
  assumes r: "nodes_in_range g" and e: "e \<in> set (edges g)" "length e \<noteq> 2" and n: "1 \<le> n_nodes g"
  shows "max_clique_formula top_weight g = Inl ValueError"
proof -
  let ?n = "n_nodes g"
  have "for_each (mark_edge [1..?n]) (edges g) (replicate (nat ?n) (replicate (nat ?n) None))
          = Inl ValueError"
  proof (rule for_each_raises[where I = "square ?n" and ?x0.0 = e])
    show "square ?n (replicate (nat ?n) (replicate (nat ?n) None))" by (rule square_replicate)
  next
    fix x and s :: "int option list list" assume x: "x \<in> set (edges g)" and s: "square ?n s"
    show "(\<exists>s'. mark_edge [1..?n] x s = Inr s' \<and> square ?n s') \<or> mark_edge [1..?n] x s = Inl ValueError"
    proof (cases "length x = 2")
      case True
      from mark_edge_step[OF nodes_in_rangeD[OF r x True] s] show ?thesis by simp
    next
      case False
      then show ?thesis by (simp add: mark_edge_def edge_vars_short)
    qed
  qed (simp_all add: e mark_edge_def edge_vars_short)
  then show ?thesis using n
    by (simp add: max_clique_formula_def new_vars_init Let_def last_upto)
qed

text \<open>
  Claim C10. When \<^verbatim>\<open>read_stream\<close> reads an input that has an edge line whose two node
  tokens are equal, it stores the one-item tuple of that node among the edges of the graph.
  On such a graph \<^verbatim>\<open>min_vertex_cover\<close>, \<^verbatim>\<open>max_clique\<close> and \<^verbatim>\<open>max_cut\<close> all raise, whatever
  the solver is; when every endpoint of every stored edge is a node of the graph, what they
  raise is the \<^verbatim>\<open>ValueError\<close> of unpacking a one-item tuple into two endpoints.
\<close>

theorem self_loop_breaks_graph_operations:
  assumes rd: "for_each (read_line to_int) lines (n_nodes g, - 1, {}) = Inr (nn, ne, es)"
    and l: "l \<in> set lines" "3 \<le> length l" "l ! 0 \<noteq> ''p''" "l ! 0 \<noteq> ''c''" "l ! 1 = l ! 2"
    and it: "set (iter_set es) = es" "\<forall>e \<in> es. set (iter_edge e) = e \<and> distinct (iter_edge e)"
  shows "\<exists>a g' out. to_int (l ! 1) = Inr a
      \<and> read_stream to_int iter_set iter_edge g lines = Inr (g', out)
      \<and> [a] \<in> set (edges g')
      \<and> (\<exists>e1 e2 e3. min_vertex_cover top_weight solve g' = Inl e1
            \<and> max_clique top_weight solve g' = Inl e2
            \<and> max_cut top_weight solve g' = Inl e3)
      \<and> (nodes_in_range g' \<longrightarrow>
            min_vertex_cover top_weight solve g' = Inl ValueError
            \<and> max_clique top_weight solve g' = Inl ValueError
            \<and> max_cut top_weight solve g' = Inl ValueError)"
proof -
  from read_lines_self_loop[OF rd l] obtain a where a: "to_int (l ! 1) = Inr a" "{a} \<in> es"
    by auto
  let ?g = "g\<lparr>edges := map iter_edge (iter_set es), n_nodes := nn\<rparr>"
  let ?out = "if ne \<noteq> int (card es) then [''Warning incorrect number of edges''] else []"
  have rs: "read_stream to_int iter_set iter_edge g lines = Inr (?g, ?out)"
    by (simp add: read_stream_def rd)
  from it(2) a(2) have "set (iter_edge {a}) = {a}" "distinct (iter_edge {a})" by auto
  then have "iter_edge {a} = [a]" by (rule iter_singleton)
  moreover from it(1) a(2) have "{a} \<in> set (iter_set es)" by simp
  ultimately have mem: "[a] \<in> set (edges ?g)" by force
  have len: "length [a] \<noteq> 2" by simp
  from min_vertex_cover_formula_fails[OF mem len] obtain e1
    where e1: "min_vertex_cover_formula top_weight ?g = Inl e1" by blast
  from max_clique_formula_fails[OF mem len] obtain e2
    where e2: "max_clique_formula top_weight ?g = Inl e2" by blast
  from max_cut_formula_fails[OF mem len] obtain e3
    where e3: "max_cut_formula top_weight ?g = Inl e3" by blast
  have fails: "\<exists>e1 e2 e3. min_vertex_cover top_weight solve ?g = Inl e1
            \<and> max_clique top_weight solve ?g = Inl e2
            \<and> max_cut top_weight solve ?g = Inl e3"
    by (simp add: min_vertex_cover_def max_clique_def max_cut_def e1 e2 e3)
  have unpack: "min_vertex_cover top_weight solve ?g = Inl ValueError
            \<and> max_clique top_weight solve ?g = Inl ValueError
            \<and> max_cut top_weight solve ?g = Inl ValueError" if r: "nodes_in_range ?g"
  proof -
    from r mem have "1 \<le> a \<and> a \<le> n_nodes ?g"
      unfolding nodes_in_range_def list_all_iff by fastforce
    then have n: "1 \<le> n_nodes ?g" by linarith
    show ?thesis
      by (simp only: min_vertex_cover_def max_clique_def max_cut_def
            min_vertex_cover_formula_unpack[OF r mem len]
            max_clique_formula_unpack[OF r mem len n]
            max_cut_formula_unpack[OF r mem len] bind_err.simps simp_thms)
  qed
  from a(1) rs mem fails unpack show ?thesis by blast
qed

theorem self_loop_breaks_graph_operations_witness:
  "for_each (read_line int_decimal) [[''p'', ''edge'', ''2'', ''2''], [''e'', ''1'', ''2''], [''e'', ''2'', ''2'']]
      (n_nodes Graph, - 1, {}) = Inr (2, 2, {{1, 2}, {2}})
   \<and> read_stream int_decimal (\<lambda>es. [{1, 2}, {2}]) (\<lambda>e. if e = {2} then [2] else [1, 2]) Graph
        [[''p'', ''edge'', ''2'', ''2''], [''e'', ''1'', ''2''], [''e'', ''2'', ''2'']]
       = Inr (\<lparr>edges = [[1, 2], [2]], n_nodes = 2\<rparr>, [])
   \<and> nodes_in_range \<lparr>edges = [[1, 2], [2]], n_nodes = 2\<rparr>
   \<and> min_vertex_cover 0 (\<lambda>f. Inr (0, [])) \<lparr>edges = [[1, 2], [2]], n_nodes = 2\<rparr> = Inl ValueError
   \<and> max_clique 0 (\<lambda>f. Inr (0, [])) \<lparr>edges = [[1, 2], [2]], n_nodes = 2\<rparr> = Inl ValueError
   \<and> max_cut 0 (\<lambda>f. Inr (0, [])) \<lparr>edges = [[1, 2], [2]], n_nodes = 2\<rparr> = Inl ValueError"
proof -
  let ?lines = "[[''p'', ''edge'', ''2'', ''2''], [''e'', ''1'', ''2''], [''e'', ''2'', ''2'']]"
  let ?is = "\<lambda>es :: int set set. [{1, 2}, {2 :: int}]"
  let ?ie = "\<lambda>e :: int set. if e = {2} then [2] else [1, 2 :: int]"
  have rd0: "for_each (read_line int_decimal) ?lines (0, - 1, {}) = Inr (2, 2, {{1, 2}, {2}})"
    by (simp add: read_line_def getitem_def int_decimal_def insert_commute)
  have rd: "for_each (read_line int_decimal) ?lines (n_nodes Graph, - 1, {}) = Inr (2, 2, {{1, 2}, {2}})"
    using rd0 by (simp add: Graph_def)
  have l: "[''e'', ''2'', ''2''] \<in> set ?lines" "3 \<le> length [''e'', ''2'', ''2'']"
    "[''e'', ''2'', ''2''] ! 0 \<noteq> ''p''" "[''e'', ''2'', ''2''] ! 0 \<noteq> ''c''"
    "[''e'', ''2'', ''2''] ! 1 = [''e'', ''2'', ''2''] ! 2"
    by simp_all
  have it: "set (?is {{1, 2}, {2}}) = {{1, 2}, {2}}"
    "\<forall>e \<in> {{1, 2}, {2 :: int}}. set (?ie e) = e \<and> distinct (?ie e)"
    by auto
  have rs: "read_stream int_decimal ?is ?ie Graph ?lines = Inr (\<lparr>edges = [[1, 2], [2]], n_nodes = 2\<rparr>, [])"
    unfolding read_stream_def rd by (simp add: Graph_def doubleton_eq_iff)
  have nr: "nodes_in_range \<lparr>edges = [[1, 2], [2]], n_nodes = 2\<rparr>"
    by (simp add: nodes_in_range_def)
  from self_loop_breaks_graph_operations[OF rd l it, of 0 "\<lambda>f. Inr (0, [])"] rs nr show ?thesis
    using rd by simp
qed

section \<open>Maximum clique\<close>

text \<open>
  On a graph with at least one node whose stored edges are pairs of its nodes, and with a
  top weight other than 1, \<^verbatim>\<open>max_clique\<close> builds the soft clause \<open>[node]\<close> of weight 1 for each
  node and the hard clause \<open>[-a, -b]\<close> for each pair of nodes \<open>a < b\<close> with no stored edge
  between them, and no other clause.
\<close>

lemma mark_edges:
  "list_all (wf_edge n) es \<Longrightarrow> square n m \<Longrightarrow>
   \<exists>m'. for_each (mark_edge [1..n]) es m = Inr m' \<and> square n m'
     \<and> (\<forall>i j. i < nat n \<and> j < nat n \<longrightarrow>
          (m' ! i ! j = Some 1) =
            (m ! i ! j = Some 1
             \<or> (\<exists>e \<in> set es. nat (min (e ! 0) (e ! 1) - 1) = i \<and> nat (max (e ! 0) (e ! 1) - 1) = j)))"
proof (induction es arbitrary: m)
  case Nil
  then show ?case by simp
next
  case (Cons e es)
  from Cons.prems have e: "wf_edge n e" and es: "list_all (wf_edge n) es" by simp_all
  let ?i = "nat (min (e ! 0) (e ! 1) - 1)" and ?j = "nat (max (e ! 0) (e ! 1) - 1)"
  let ?m1 = "m[?i := (m ! ?i)[?j := Some 1]]"
  have m1: "mark_edge [1..n] e m = Inr ?m1" by (rule mark_edge_wf[OF e Cons.prems(2)])
  have sq1: "square n ?m1" by (rule square_mark[OF Cons.prems(2)])
  from wf_edgeE[OF e] have r: "?i < nat n" "?j < nat n" by auto
  from Cons.prems(2) have len: "length m = nat n" "\<And>k. k < nat n \<Longrightarrow> length (m ! k) = nat n"
    by (auto simp: square_def list_all_iff)
  have cell: "(?m1 ! i ! j = Some 1) = (m ! i ! j = Some 1 \<or> (?i = i \<and> ?j = j))"
    if "i < nat n" "j < nat n" for i j
    using that len r by (auto simp: nth_list_update)
  from Cons.IH[OF es sq1] obtain m' where m': "for_each (mark_edge [1..n]) es ?m1 = Inr m'"
    "square n m'"
    "\<forall>i j. i < nat n \<and> j < nat n \<longrightarrow>
          (m' ! i ! j = Some 1) =
            (?m1 ! i ! j = Some 1
             \<or> (\<exists>e \<in> set es. nat (min (e ! 0) (e ! 1) - 1) = i \<and> nat (max (e ! 0) (e ! 1) - 1) = j))"
    by blast
  have "for_each (mark_edge [1..n]) (e # es) m = Inr m'" using m1 m'(1) by simp
  moreover have "\<forall>i j. i < nat n \<and> j < nat n \<longrightarrow>
          (m' ! i ! j = Some 1) =
            (m ! i ! j = Some 1
             \<or> (\<exists>e \<in> set (e # es). nat (min (e ! 0) (e ! 1) - 1) = i \<and> nat (max (e ! 0) (e ! 1) - 1) = j))"
    using m'(3) cell by auto
  ultimately show ?case using m'(2) by blast
qed

lemma non_edge_clause_in:
  assumes "square n M" "0 \<le> i" "i < n" "0 \<le> j" "j < n"
  shows "non_edge_clause top_weight M i j f =
     Inr (if M ! nat i ! nat j \<noteq> Some 1
          then f\<lparr>hard := hard f @ [[- (i + 1), - (j + 1)]]\<rparr> else f)"
proof -
  from assms have len: "length M = nat n" "length (M ! nat i) = nat n"
    by (auto simp: square_def list_all_iff)
  have a: "getitem M i = Inr (M ! nat i)" using assms len by (simp add: getitem_in)
  have b: "getitem (M ! nat i) j = Inr (M ! nat i ! nat j)" using assms len by (simp add: getitem_in)
  show ?thesis by (simp add: non_edge_clause_def a b add_clause_top)
qed

lemma non_edge_inner:
  assumes sq: "square n M" and i: "0 \<le> i" "i < n"
  shows "\<forall>j \<in> set js. 0 \<le> j \<and> j < n \<Longrightarrow>
     for_each (non_edge_clause top_weight M i) js f =
       Inr (f\<lparr>hard := hard f @ map (\<lambda>j. [- (i + 1), - (j + 1)])
                                 (filter (\<lambda>j. M ! nat i ! nat j \<noteq> Some 1) js)\<rparr>)"
proof (induction js arbitrary: f)
  case Nil
  show ?case by simp
next
  case (Cons j js)
  from Cons.prems have j: "0 \<le> j" "j < n" and js: "\<forall>j \<in> set js. 0 \<le> j \<and> j < n" by simp_all
  show ?case
    by (simp add: non_edge_clause_in[OF sq i j] Cons.IH[OF js])
qed

lemma non_edge_outer:
  assumes sq: "square n M"
  shows "\<forall>i \<in> set is. 0 \<le> i \<and> i < n \<Longrightarrow>
     for_each (\<lambda>index1. for_each (non_edge_clause top_weight M index1) [index1 + 1..n - 1]) is f =
       Inr (f\<lparr>hard := hard f @ concat (map (\<lambda>i. map (\<lambda>j. [- (i + 1), - (j + 1)])
                 (filter (\<lambda>j. M ! nat i ! nat j \<noteq> Some 1) [i + 1..n - 1])) is)\<rparr>)"
proof (induction "is" arbitrary: f)
  case Nil
  show ?case by simp
next
  case (Cons i "is")
  from Cons.prems have i: "0 \<le> i" "i < n" and rest: "\<forall>i \<in> set is. 0 \<le> i \<and> i < n" by simp_all
  have js: "\<forall>j \<in> set [i + 1..n - 1]. 0 \<le> j \<and> j < n" using i by auto
  show ?case
    by (simp add: non_edge_inner[OF sq i js] Cons.IH[OF rest])
qed

lemma max_clique_formula_eq:
  assumes n: "1 \<le> n_nodes g" and t: "top_weight \<noteq> 1"
    and wf: "list_all (wf_edge (n_nodes g)) (edges g)"
  shows "max_clique_formula top_weight g =
     Inr \<lparr>variables = n_nodes g,
          hard = concat (map (\<lambda>i. map (\<lambda>j. [- (i + 1), - (j + 1)])
                   (filter (\<lambda>j. \<not> adjacent g (i + 1) (j + 1)) [i + 1..n_nodes g - 1]))
                 [0..n_nodes g - 1]),
          soft = map (\<lambda>v. ([v], 1)) [1..n_nodes g]\<rparr>"
proof -
  let ?n = "n_nodes g"
  let ?M0 = "replicate (nat ?n) (replicate (nat ?n) (None :: int option))"
  from mark_edges[OF wf square_replicate, of None]
  obtain M where M: "for_each (mark_edge [1..?n]) (edges g) ?M0 = Inr M" "square ?n M"
    "\<forall>i j. i < nat ?n \<and> j < nat ?n \<longrightarrow>
          (M ! i ! j = Some 1) =
            (?M0 ! i ! j = Some 1
             \<or> (\<exists>e \<in> set (edges g). nat (min (e ! 0) (e ! 1) - 1) = i
                   \<and> nat (max (e ! 0) (e ! 1) - 1) = j))"
    by blast
  have adj: "(M ! nat i ! nat j \<noteq> Some 1) = (\<not> adjacent g (i + 1) (j + 1))"
    if ij: "0 \<le> i" "i < j" "j < ?n" for i j
  proof -
    from ij have r: "nat i < nat ?n" "nat j < nat ?n" by simp_all
    have "(\<exists>e \<in> set (edges g). nat (min (e ! 0) (e ! 1) - 1) = nat i
                   \<and> nat (max (e ! 0) (e ! 1) - 1) = nat j) = adjacent g (i + 1) (j + 1)"
    proof
      assume "\<exists>e \<in> set (edges g). nat (min (e ! 0) (e ! 1) - 1) = nat i
                   \<and> nat (max (e ! 0) (e ! 1) - 1) = nat j"
      then obtain e where e: "e \<in> set (edges g)" "nat (min (e ! 0) (e ! 1) - 1) = nat i"
        "nat (max (e ! 0) (e ! 1) - 1) = nat j" by blast
      from wf e(1) have "wf_edge ?n e" by (simp add: list_all_iff)
      from wf_edgeE[OF this] obtain a b where ab: "e = [a, b]" "1 \<le> a" "1 \<le> b" by blast
      from e(2,3) ab ij have "min a b = i + 1" "max a b = j + 1" by simp_all
      then have "(a = i + 1 \<and> b = j + 1) \<or> (a = j + 1 \<and> b = i + 1)" by linarith
      with e(1) ab(1) show "adjacent g (i + 1) (j + 1)" by (auto simp: adjacent_def)
    next
      assume "adjacent g (i + 1) (j + 1)"
      then consider "[i + 1, j + 1] \<in> set (edges g)" | "[j + 1, i + 1] \<in> set (edges g)"
        by (auto simp: adjacent_def)
      then show "\<exists>e \<in> set (edges g). nat (min (e ! 0) (e ! 1) - 1) = nat i
                   \<and> nat (max (e ! 0) (e ! 1) - 1) = nat j"
      proof cases
        case 1
        then show ?thesis using ij by (intro bexI[of _ "[i + 1, j + 1]"]) simp_all
      next
        case 2
        then show ?thesis using ij by (intro bexI[of _ "[j + 1, i + 1]"]) simp_all
      qed
    qed
    with M(3) r show ?thesis by simp
  qed
  have rows: "\<forall>i \<in> set [0..?n - 1]. 0 \<le> i \<and> i < ?n" by auto
  have flt: "filter (\<lambda>j. M ! nat i ! nat j \<noteq> Some 1) [i + 1..?n - 1]
      = filter (\<lambda>j. \<not> adjacent g (i + 1) (j + 1)) [i + 1..?n - 1]" if "0 \<le> i" for i
    by (rule filter_cong[OF refl]) (use that adj in auto)
  have cc: "concat (map (\<lambda>i. map (\<lambda>j. [- (i + 1), - (j + 1)])
                 (filter (\<lambda>j. M ! nat i ! nat j \<noteq> Some 1) [i + 1..?n - 1])) [0..?n - 1])
      = concat (map (\<lambda>i. map (\<lambda>j. [- (i + 1), - (j + 1)])
                 (filter (\<lambda>j. \<not> adjacent g (i + 1) (j + 1)) [i + 1..?n - 1])) [0..?n - 1])"
    by (rule arg_cong[where f = concat], rule map_cong[OF refl]) (simp add: flt)
  have ne: "([1..?n] = []) = False" using n by simp
  let ?F1 = "\<lparr>variables = ?n, hard = [], soft = map (\<lambda>v. ([v], 1)) [1..?n]\<rparr>"
  have f1: "fold (\<lambda>n f. add_clause top_weight f [n] 1) [1..?n]
              \<lparr>variables = int (nat ?n), hard = [], soft = []\<rparr> = ?F1"
    using n t by (simp add: fold_soft)
  have "max_clique_formula top_weight g =
      bind_err (for_each (mark_edge [1..?n]) (edges g) ?M0) (\<lambda>matrix'.
        for_each (\<lambda>index1.
            for_each (non_edge_clause top_weight matrix' index1) [index1 + 1..?n - 1])
          [0..?n - 1] ?F1)"
    unfolding max_clique_formula_def new_vars_init prod.case Let_def f1
    by (simp only: ne if_False last_upto[OF n])
  also have "\<dots> = for_each (\<lambda>index1.
            for_each (non_edge_clause top_weight M index1) [index1 + 1..?n - 1])
          [0..?n - 1] ?F1"
    by (simp only: M(1) bind_err.simps)
  also have "\<dots> = Inr (?F1\<lparr>hard := hard ?F1 @ concat (map (\<lambda>i. map (\<lambda>j. [- (i + 1), - (j + 1)])
                 (filter (\<lambda>j. M ! nat i ! nat j \<noteq> Some 1) [i + 1..?n - 1])) [0..?n - 1])\<rparr>)"
    by (rule non_edge_outer[OF M(2) rows])
  also have "\<dots> = Inr \<lparr>variables = ?n,
          hard = concat (map (\<lambda>i. map (\<lambda>j. [- (i + 1), - (j + 1)])
                   (filter (\<lambda>j. \<not> adjacent g (i + 1) (j + 1)) [i + 1..?n - 1]))
                 [0..?n - 1]),
          soft = map (\<lambda>v. ([v], 1)) [1..?n]\<rparr>"
    unfolding cc by simp
  finally show ?thesis .
qed

text \<open>
  Claim C4. The claim promises a formula for every graph. On the graph without nodes the
  list \<^verbatim>\<open>nodes\<close> is empty, the loop variable \<^verbatim>\<open>n\<close> that sizes the matrix is never bound,
  and \<^verbatim>\<open>max_clique\<close> raises before it builds a hard clause or calls the solver, whatever
  the edges, the top weight and the solver are.
\<close>

theorem max_clique_no_nodes_raises:
  "max_clique top_weight solve \<lparr>edges = es, n_nodes = 0\<rparr> = Inl UnboundLocalError"
  by (simp add: max_clique_def max_clique_formula_def)

section \<open>The auction\<close>

lemma fold_insert_goods:
  "fold (\<lambda>good gs. insert (good, v) gs) xs G = G \<union> (\<lambda>g. (g, v)) ` set xs"
  by (induction xs arbitrary: G) auto

lemma manage_auction_Inr:
  assumes "manage_auction top_weight to_int a bid = Inr a'"
  shows "\<exists>w. bid_price to_int bid = Inr w \<and>
     a' = a\<lparr>formula := add_clause top_weight ((formula a)\<lparr>variables := variables (formula a) + 1\<rparr>)
                         [variables (formula a) + 1] w,
            goods := goods a \<union> (\<lambda>g. (g, variables (formula a) + 1)) ` set (bid_goods bid)\<rparr>"
  using assms
  by (auto simp: manage_auction_def new_var_def fold_insert_goods dest!: bind_err_Inr)

lemma getitem_0: "getitem l 0 = Inr t \<Longrightarrow> l \<noteq> [] \<and> hd l = t"
  by (cases l) (auto simp: getitem_def split: if_splits)

lemma parse_line_cases:
  assumes "parse_line top_weight to_int l a = Inr a'"
  obtains (who) "l \<noteq> []" "hd l = ''a''" "a' = a\<lparr>auctioneers := auctioneers a @ drop 1 l\<rparr>"
  | (goods) "l \<noteq> []" "hd l = ''g''" "a' = a"
  | (bid) w where "is_bid l" "bid_price to_int l = Inr w"
      "a' = a\<lparr>auctions := auctions a @ [l],
              formula := add_clause top_weight ((formula a)\<lparr>variables := variables (formula a) + 1\<rparr>)
                           [variables (formula a) + 1] w,
              goods := goods a \<union> (\<lambda>g. (g, variables (formula a) + 1)) ` set (bid_goods l)\<rparr>"
proof -
  from assms obtain t where t: "getitem l 0 = Inr t"
    and r: "(let a1 = (if t = ''a'' then a\<lparr>auctioneers := auctioneers a @ drop 1 l\<rparr> else a)
       in if t \<noteq> ''g'' \<and> t \<noteq> ''a''
          then manage_auction top_weight to_int (a1\<lparr>auctions := auctions a1 @ [l]\<rparr>) l
          else Inr a1) = Inr a'"
    unfolding parse_line_def by (auto dest!: bind_err_Inr)
  from getitem_0[OF t] have l: "l \<noteq> []" "hd l = t" by simp_all
  consider "t = ''a''" | "t = ''g''" | "t \<noteq> ''a''" "t \<noteq> ''g''" by blast
  then show ?thesis
  proof cases
    case 1
    with r l who show ?thesis by simp
  next
    case 2
    with r l goods show ?thesis by simp
  next
    case 3
    with r have "manage_auction top_weight to_int (a\<lparr>auctions := auctions a @ [l]\<rparr>) l = Inr a'"
      by simp
    from manage_auction_Inr[OF this] obtain w where w: "bid_price to_int l = Inr w"
      "a' = a\<lparr>auctions := auctions a @ [l],
              formula := add_clause top_weight ((formula a)\<lparr>variables := variables (formula a) + 1\<rparr>)
                           [variables (formula a) + 1] w,
              goods := goods a \<union> (\<lambda>g. (g, variables (formula a) + 1)) ` set (bid_goods l)\<rparr>"
      by auto
    have "is_bid l" using 3 l by (cases l) (simp_all add: is_bid_def)
    with w bid show ?thesis by blast
  qed
qed

lemma upto_snoc: "0 \<le> n \<Longrightarrow> [1..n + 1] = [1..n] @ [n + 1]"
  using upto_rec2[of 1 "n + 1"] by simp

lemma upto_length_snoc: "[1..int (length (A @ [l]))] = [1..int (length A)] @ [int (length A) + 1]"
  using upto_snoc[of "int (length A)"] by (simp add: add.commute)

lemma nth_snoc_old: "v \<in> set [1..int (length A)] \<Longrightarrow> (A @ [l]) ! nat (v - 1) = A ! nat (v - 1)"
proof -
  assume "v \<in> set [1..int (length A)]"
  then have "nat (v - 1) < length A" by auto
  then show ?thesis by (simp add: nth_append)
qed

lemma nth_snoc_new: "(A @ [l]) ! nat (int (length A) + 1 - 1) = l"
  by simp

lemma hard_of_bids_snoc:
  "hard_of_bids top_weight to_int (A @ [l]) =
     hard_of_bids top_weight to_int A
       @ (if bid_price to_int l = Inr top_weight then [[int (length A) + 1]] else [])"
proof -
  have f: "filter (\<lambda>v. bid_price to_int ((A @ [l]) ! nat (v - 1)) = Inr top_weight) [1..int (length A)]
      = filter (\<lambda>v. bid_price to_int (A ! nat (v - 1)) = Inr top_weight) [1..int (length A)]"
    by (rule filter_cong[OF refl]) (simp add: nth_snoc_old)
  show ?thesis
    unfolding hard_of_bids_def upto_length_snoc filter_append f
    by (simp only: nth_snoc_new filter.simps map_append list.map split: if_split) simp
qed

lemma soft_of_bids_snoc:
  "soft_of_bids top_weight to_int (A @ [l]) =
     soft_of_bids top_weight to_int A
       @ (if bid_price to_int l \<noteq> Inr top_weight
          then [([int (length A) + 1], projr (bid_price to_int l))] else [])"
proof -
  have f: "filter (\<lambda>v. bid_price to_int ((A @ [l]) ! nat (v - 1)) \<noteq> Inr top_weight) [1..int (length A)]
      = filter (\<lambda>v. bid_price to_int (A ! nat (v - 1)) \<noteq> Inr top_weight) [1..int (length A)]"
    by (rule filter_cong[OF refl]) (simp add: nth_snoc_old)
  have m: "map (\<lambda>v. ([v], projr (bid_price to_int ((A @ [l]) ! nat (v - 1))))) (filter P [1..int (length A)])
      = map (\<lambda>v. ([v], projr (bid_price to_int (A ! nat (v - 1))))) (filter P [1..int (length A)])" for P
    by (rule map_cong[OF refl]) (simp add: nth_snoc_old)
  show ?thesis
    unfolding soft_of_bids_def upto_length_snoc filter_append f map_append m
    by (simp only: nth_snoc_new filter.simps list.map split: if_split) simp
qed

lemma goods_of_bids_snoc:
  "goods_of_bids (A @ [l]) = goods_of_bids A \<union> (\<lambda>g. (g, int (length A) + 1)) ` set (bid_goods l)"
proof -
  have "(\<Union>i < length A. (\<lambda>g. (g, int i + 1)) ` set (bid_goods ((A @ [l]) ! i)))
      = (\<Union>i < length A. (\<lambda>g. (g, int i + 1)) ` set (bid_goods (A ! i)))"
    by (intro SUP_cong refl) (simp add: nth_append)
  then show ?thesis
    by (simp add: goods_of_bids_def lessThan_Suc Un_commute)
qed

lemma bids_read_step:
  assumes inv: "bids_read top_weight to_int a" and p: "parse_line top_weight to_int l a = Inr a'"
  shows "bids_read top_weight to_int a'"
  using p
proof (cases rule: parse_line_cases)
  case who
  with inv show ?thesis by (simp add: bids_read_def)
next
  case goods
  with inv show ?thesis by simp
next
  case (bid w)
  from inv have v: "variables (formula a) = int (length (auctions a))" by (simp add: bids_read_def)
  show ?thesis
    unfolding bids_read_def bid(3)
    using inv bid(1,2) v
    by (simp add: bids_read_def add_clause_def hard_of_bids_snoc soft_of_bids_snoc
          goods_of_bids_snoc)
qed

lemma bids_read_init: "bids_read top_weight to_int (Auction fl)"
  by (simp add: bids_read_def Auction_def WCNFFormula_def hard_of_bids_def soft_of_bids_def
        goods_of_bids_def)

lemma for_each_invariant:
  assumes "I s" and "\<And>x s s'. x \<in> set xs \<Longrightarrow> I s \<Longrightarrow> body x s = Inr s' \<Longrightarrow> I s'"
    and "for_each body xs s = Inr s'"
  shows "I s'"
  using assms
proof (induction xs arbitrary: s)
  case Nil
  then show ?case by simp
next
  case (Cons x xs)
  from Cons.prems(3) obtain s1 where s1: "body x s = Inr s1" "for_each body xs s1 = Inr s'"
    by (auto split: sum.splits)
  have "I s1" by (rule Cons.prems(2)[OF _ Cons.prems(1) s1(1)]) simp
  then show ?case
  proof (rule Cons.IH)
    show "for_each body xs s1 = Inr s'" by (rule s1(2))
  next
    fix y t t' assume "y \<in> set xs" "I t" "body y t = Inr t'"
    then show "I t'" using Cons.prems(2)[of y t t'] by simp
  qed
qed

lemma bids_read_lines:
  "for_each (parse_line top_weight to_int) lines (Auction fl) = Inr a \<Longrightarrow> bids_read top_weight to_int a"
  by (rule for_each_invariant[where I = "bids_read top_weight to_int"])
     (auto intro: bids_read_init bids_read_step)

lemma fold_add_new:
  "\<exists>news. fold (add_new P c) xs s = s @ news \<and> distinct news \<and> set news \<inter> set s = {}
       \<and> set news = {c x | x. x \<in> set xs \<and> P x} - set s"
proof (induction xs arbitrary: s)
  case Nil
  show ?case by simp
next
  case (Cons x xs)
  let ?s = "add_new P c x s"
  from Cons.IH[of ?s] obtain news where n: "fold (add_new P c) xs ?s = ?s @ news"
    "distinct news" "set news \<inter> set ?s = {}"
    "set news = {c x | x. x \<in> set xs \<and> P x} - set ?s" by blast
  show ?case
  proof (cases "P x \<and> c x \<notin> set s")
    case True
    then have s: "?s = s @ [c x]" by (simp add: add_new_def)
    have "fold (add_new P c) (x # xs) s = s @ (c x # news)" using n(1) s by simp
    moreover have "distinct (c x # news)" using n(2,3) s by auto
    moreover have "set (c x # news) \<inter> set s = {}" using n(3) s True by auto
    moreover have "set (c x # news) = {c y | y. y \<in> set (x # xs) \<and> P y} - set s"
      using n(4) s True by auto
    ultimately show ?thesis by blast
  next
    case False
    then have s: "?s = s" by (auto simp: add_new_def)
    have "fold (add_new P c) (x # xs) s = s @ news" using n(1) s by simp
    moreover have "set news = {c y | y. y \<in> set (x # xs) \<and> P y} - set s"
      using n(4) s False by auto
    ultimately show ?thesis using n(2,3) s by auto
  qed
qed

lemma fold_project:
  assumes "\<And>x s. h (f x s) = f' x (h s)"
  shows "h (fold f xs s) = fold f' xs (h s)"
  by (induction xs arbitrary: s) (simp_all add: assms)

lemma fold_product:
  "fold (\<lambda>x. fold (\<lambda>y. F (x, y)) ys) xs s = fold F (List.product xs ys) s"
proof (induction xs arbitrary: s)
  case Nil
  show ?case by simp
next
  case (Cons x xs)
  have "fold F (map (Pair x) ys) s = fold (\<lambda>y. F (x, y)) ys s"
    by (simp add: fold_map comp_def)
  then show ?case by (simp add: Cons)
qed

lemma incompatible_hard:
  "hard (formula (incompatible top_weight good good2 a))
     = add_new clash pair_clause (good, good2) (hard (formula a))"
  by (auto simp: incompatible_def add_new_def clash_def pair_clause_def add_clause_top)

lemma incompatible_frame:
  "(incompatible top_weight good good2 a)
     = a\<lparr>formula := (formula a)\<lparr>hard := hard (formula (incompatible top_weight good good2 a))\<rparr>\<rparr>"
  by (simp add: incompatible_def add_clause_top)

lemma manage_incompatibilities_eq:
  "manage_incompatibilities top_weight a gs =
     a\<lparr>formula := (formula a)\<lparr>hard := fold (add_new clash pair_clause) (List.product gs gs)
                                         (hard (formula a))\<rparr>\<rparr>"
proof -
  let ?F = "\<lambda>p. incompatible top_weight (fst p) (snd p)"
  have m: "manage_incompatibilities top_weight a gs = fold ?F (List.product gs gs) a"
    unfolding manage_incompatibilities_def using fold_product[of ?F gs gs a] by simp
  have "fold ?F ps a =
     a\<lparr>formula := (formula a)\<lparr>hard := fold (add_new clash pair_clause) ps (hard (formula a))\<rparr>\<rparr>" for ps
  proof (induction ps arbitrary: a)
    case Nil
    show ?case by simp
  next
    case (Cons p ps)
    have "fold ?F (p # ps) a = fold ?F ps (?F p a)" by simp
    also have "\<dots> = (?F p a)\<lparr>formula := (formula (?F p a))
        \<lparr>hard := fold (add_new clash pair_clause) ps (hard (formula (?F p a)))\<rparr>\<rparr>"
      by (rule Cons.IH)
    also have "\<dots> = a\<lparr>formula := (formula a)
        \<lparr>hard := fold (add_new clash pair_clause) (p # ps) (hard (formula a))\<rparr>\<rparr>"
      using incompatible_hard[of top_weight "fst p" "snd p" a]
        incompatible_frame[of top_weight "fst p" "snd p" a]
      by (cases "?F p a = a") (auto simp: incompatible_def add_clause_top add_new_def)
    finally show ?case .
  qed
  with m show ?thesis by simp
qed

lemma list_index_mem:
  "x \<in> set xs \<Longrightarrow> \<exists>i. list_index xs x = Inr i \<and> 0 \<le> i \<and> i < int (length xs) \<and> xs ! nat i = x"
proof (induction xs)
  case Nil
  then show ?case by simp
next
  case (Cons y ys)
  show ?case
  proof (cases "y = x")
    case True
    then show ?thesis by simp
  next
    case False
    with Cons.prems have "x \<in> set ys" by simp
    from Cons.IH[OF this] obtain i where i: "list_index ys x = Inr i" "0 \<le> i"
      "i < int (length ys)" "ys ! nat i = x" by blast
    have "nat (i + 1) = Suc (nat i)" using i(2) by simp
    with i False show ?thesis by simp
  qed
qed

lemma auctions_of_auctioneer_loop:
  "set rs \<subseteq> set A \<Longrightarrow> list_all (\<lambda>r. r \<noteq> []) rs \<Longrightarrow>
   for_each (\<lambda>auction acc.
        bind_err (getitem auction 0) (\<lambda>agent.
          if who = agent
          then bind_err (list_index A auction) (\<lambda>i. Inr (acc @ [i + 1]))
          else Inr acc)) rs acc
     = Inr (acc @ map (\<lambda>r. projr (list_index A r) + 1) (filter (\<lambda>r. hd r = who) rs))"
proof (induction rs arbitrary: acc)
  case Nil
  show ?case by simp
next
  case (Cons r rs)
  from Cons.prems have r: "r \<in> set A" "r \<noteq> []" and rs: "set rs \<subseteq> set A" "list_all (\<lambda>r. r \<noteq> []) rs"
    by simp_all
  from list_index_mem[OF r(1)] obtain i where i: "list_index A r = Inr i" by blast
  show ?case
  proof (cases "who = hd r")
    case True
    with Cons.IH[OF rs, of "acc @ [i + 1]"] show ?thesis
      by (simp add: getitem_first[OF r(2)] i)
  next
    case False
    with Cons.IH[OF rs, of acc] show ?thesis
      by (simp add: getitem_first[OF r(2)] i)
  qed
qed

lemma auctions_of_auctioneer_eq:
  "list_all (\<lambda>r. r \<noteq> []) A \<Longrightarrow> auctions_of_auctioneer A who = Inr (clause_of A who)"
  unfolding auctions_of_auctioneer_def clause_of_def
  using auctions_of_auctioneer_loop[of A A who "[]"] by simp

lemma auctioneer_clauses_loop:
  "list_all (\<lambda>r. r \<noteq> []) (auctions a) \<Longrightarrow>
   for_each (\<lambda>auctioneer a'.
        bind_err (auctions_of_auctioneer (auctions a') auctioneer) (\<lambda>c.
          Inr (a'\<lparr>formula := add_clause top_weight (formula a') c top_weight\<rparr>))) ws a
     = Inr (a\<lparr>formula := (formula a)\<lparr>hard := hard (formula a) @ map (clause_of (auctions a)) ws\<rparr>\<rparr>)"
proof (induction ws arbitrary: a)
  case Nil
  show ?case by simp
next
  case (Cons w ws)
  let ?a = "a\<lparr>formula := add_clause top_weight (formula a) (clause_of (auctions a) w) top_weight\<rparr>"
  have ne: "list_all (\<lambda>r. r \<noteq> []) (auctions ?a)" using Cons.prems by simp
  show ?case
    using Cons.IH[OF ne]
    by (simp add: auctions_of_auctioneer_eq[OF Cons.prems] add_clause_top)
qed

lemma auctioneer_clauses_eq:
  "list_all (\<lambda>r. r \<noteq> []) (auctions a) \<Longrightarrow>
   auctioneer_clauses top_weight a
     = Inr (a\<lparr>formula := (formula a)\<lparr>hard := hard (formula a)
               @ map (clause_of (auctions a)) (auctioneers a)\<rparr>\<rparr>)"
  unfolding auctioneer_clauses_def by (rule auctioneer_clauses_loop)

lemma clause_of_range: "l \<in> set (clause_of A who) \<Longrightarrow> 1 \<le> l \<and> l \<le> int (length A)"
proof -
  assume "l \<in> set (clause_of A who)"
  then obtain r where r: "r \<in> set A" "l = projr (list_index A r) + 1"
    by (auto simp: clause_of_def)
  from list_index_mem[OF r(1)] obtain i where "list_index A r = Inr i" "0 \<le> i" "i < int (length A)"
    by blast
  with r(2) show ?thesis by simp
qed

lemma is_bid_nonempty: "list_all is_bid A \<Longrightarrow> list_all (\<lambda>r. r \<noteq> []) A"
  by (induction A) (auto simp: is_bid_def)

lemma parse_lines_lists:
  "for_each (parse_line top_weight to_int) lines a = Inr a' \<Longrightarrow>
   auctions a' = auctions a @ filter is_bid lines
   \<and> auctioneers a' = auctioneers a @ concat (map (drop 1) (filter (\<lambda>l. hd l = ''a'') lines))
   \<and> flag a' = flag a"
proof (induction lines arbitrary: a)
  case Nil
  then show ?case by simp
next
  case (Cons l ls)
  from Cons.prems obtain a1 where a1: "parse_line top_weight to_int l a = Inr a1"
    "for_each (parse_line top_weight to_int) ls a1 = Inr a'"
    by (auto split: sum.splits)
  note ih = Cons.IH[OF a1(2)]
  from a1(1) show ?case
  proof (cases rule: parse_line_cases)
    case who
    then have "\<not> is_bid l" by (cases l) (simp_all add: is_bid_def)
    with who ih show ?thesis by simp
  next
    case goods
    then have "\<not> is_bid l" "hd l \<noteq> ''a''" by (cases l; simp add: is_bid_def)+
    with goods ih show ?thesis by simp
  next
    case (bid w)
    then have "hd l \<noteq> ''a''" by (cases l) (simp_all add: is_bid_def)
    with bid ih show ?thesis by simp
  qed
qed

lemma count_list_distinct: "distinct xs \<Longrightarrow> x \<in> set xs \<Longrightarrow> count_list xs x = 1"
  by (induction xs) auto

lemma build_formula_eq:
  assumes rd: "for_each (parse_line top_weight to_int) lines (Auction fl) = Inr a1"
  shows "build_formula top_weight to_int iter (Auction fl) lines =
     Inr (a1\<lparr>formula := (formula a1)
            \<lparr>hard := fold (add_new clash pair_clause)
                       (List.product (iter (goods a1)) (iter (goods a1)))
                       (hard_of_bids top_weight to_int (auctions a1))
                     @ (if fl then [] else map (clause_of (auctions a1)) (auctioneers a1))\<rparr>\<rparr>)"
proof -
  from bids_read_lines[OF rd] have inv: "bids_read top_weight to_int a1" .
  from inv have h: "hard (formula a1) = hard_of_bids top_weight to_int (auctions a1)"
    and nb: "list_all is_bid (auctions a1)" by (simp_all add: bids_read_def)
  from parse_lines_lists[OF rd] have fl: "flag a1 = fl" by (simp add: Auction_def)
  let ?a2 = "manage_incompatibilities top_weight a1 (iter (goods a1))"
  have a2: "?a2 = a1\<lparr>formula := (formula a1)
            \<lparr>hard := fold (add_new clash pair_clause)
                       (List.product (iter (goods a1)) (iter (goods a1)))
                       (hard_of_bids top_weight to_int (auctions a1))\<rparr>\<rparr>"
    by (simp add: manage_incompatibilities_eq h)
  have "auctions ?a2 = auctions a1" by (simp add: manage_incompatibilities_eq)
  with is_bid_nonempty[OF nb] have ne: "list_all (\<lambda>r. r \<noteq> []) (auctions ?a2)"
    by simp
  show ?thesis
  proof (cases fl)
    case True
    then show ?thesis
      unfolding build_formula_def rd bind_err.simps Let_def
      by (simp add: a2 fl)
  next
    case False
    then show ?thesis
      unfolding build_formula_def rd bind_err.simps Let_def
      using auctioneer_clauses_eq[OF ne, of top_weight]
      by (simp add: a2 fl)
  qed
qed

lemma parse_input_stream_build:
  "parse_input_stream top_weight to_int iter solve a lines =
     bind_err (build_formula top_weight to_int iter a lines) (\<lambda>a'.
       bind_err (solve (formula a')) (\<lambda>solution. Inr (a', solution)))"
proof (cases "for_each (parse_line top_weight to_int) lines a")
  case (Inl e)
  then show ?thesis by (simp add: parse_input_stream_def build_formula_def)
next
  case (Inr a1)
  show ?thesis
  proof (cases "auctioneer_clauses top_weight (manage_incompatibilities top_weight a1 (iter (goods a1)))")
    case (Inl e)
    with Inr show ?thesis
      by (simp add: parse_input_stream_def build_formula_def Let_def check_all_auctioneers_win_def)
  next
    case (Inr a3)
    with \<open>for_each (parse_line top_weight to_int) lines a = Inr a1\<close> show ?thesis
      by (simp add: parse_input_stream_def build_formula_def Let_def check_all_auctioneers_win_def)
  qed
qed

lemma build_formula_Inr:
  assumes "build_formula top_weight to_int iter (Auction fl) lines = Inr a"
  obtains a1 where "for_each (parse_line top_weight to_int) lines (Auction fl) = Inr a1"
    "bids_read top_weight to_int a1"
    "auctions a1 = filter is_bid lines"
    "auctioneers a1 = concat (map (drop 1) (filter (\<lambda>l. hd l = ''a'') lines))"
    "a = a1\<lparr>formula := (formula a1)
            \<lparr>hard := fold (add_new clash pair_clause)
                       (List.product (iter (goods a1)) (iter (goods a1)))
                       (hard_of_bids top_weight to_int (auctions a1))
                     @ (if fl then [] else map (clause_of (auctions a1)) (auctioneers a1))\<rparr>\<rparr>"
proof -
  from assms obtain a1 where rd: "for_each (parse_line top_weight to_int) lines (Auction fl) = Inr a1"
    unfolding build_formula_def by (auto dest!: bind_err_Inr)
  from build_formula_eq[OF rd, of iter] assms have
    "a = a1\<lparr>formula := (formula a1)
            \<lparr>hard := fold (add_new clash pair_clause)
                       (List.product (iter (goods a1)) (iter (goods a1)))
                       (hard_of_bids top_weight to_int (auctions a1))
                     @ (if fl then [] else map (clause_of (auctions a1)) (auctioneers a1))\<rparr>\<rparr>"
    by simp
  moreover from parse_lines_lists[OF rd] have "auctions a1 = filter is_bid lines"
    "auctioneers a1 = concat (map (drop 1) (filter (\<lambda>l. hd l = ''a'') lines))"
    by (simp_all add: Auction_def)
  ultimately show ?thesis using that rd bids_read_lines[OF rd] by blast
qed

lemma hard_of_bids_distinct: "distinct (hard_of_bids top_weight to_int A)"
  unfolding hard_of_bids_def by (simp add: distinct_map inj_on_def)

lemma hard_of_bids_positive:
  "c \<in> set (hard_of_bids top_weight to_int A) \<Longrightarrow> \<exists>v. c = [v] \<and> 1 \<le> v \<and> v \<le> int (length A)"
  unfolding hard_of_bids_def by auto

lemma goods_of_bids_iff:
  "(g, v) \<in> goods_of_bids A \<longleftrightarrow> (\<exists>i < length A. v = int i + 1 \<and> g \<in> set (bid_goods (A ! i)))"
  unfolding goods_of_bids_def by auto

text \<open>
  When no two bid rows of the input are equal, the clause added for an auctioneer holds the
  variables of all the bids whose agent it is, in input order.
\<close>

lemma list_index_distinct:
  "distinct xs \<Longrightarrow> i < length xs \<Longrightarrow> list_index xs (xs ! i) = Inr (int i)"
proof (induction xs arbitrary: i)
  case Nil
  then show ?case by simp
next
  case (Cons x xs)
  show ?case
  proof (cases i)
    case 0
    then show ?thesis by simp
  next
    case (Suc k)
    with Cons.prems have k: "k < length xs" and d: "distinct xs" and nx: "x \<notin> set xs" by simp_all
    from k nx have "x \<noteq> xs ! k" by (metis nth_mem)
    with Cons.IH[OF d k] Suc show ?thesis by simp
  qed
qed

lemma clause_of_distinct_rows:
  assumes d: "distinct A"
  shows "clause_of A who = map (\<lambda>i. int i + 1) (filter (\<lambda>i. hd (A ! i) = who) [0..<length A])"
proof -
  have "filter (\<lambda>r. hd r = who) A = filter (\<lambda>r. hd r = who) (map ((!) A) [0..<length A])"
    by (simp add: map_nth)
  also have "\<dots> = map ((!) A) (filter (\<lambda>i. hd (A ! i) = who) [0..<length A])"
    by (simp add: filter_map comp_def)
  finally have f: "filter (\<lambda>r. hd r = who) A
      = map ((!) A) (filter (\<lambda>i. hd (A ! i) = who) [0..<length A])" .
  have "map (\<lambda>r. projr (list_index A r) + 1)
          (map ((!) A) (filter (\<lambda>i. hd (A ! i) = who) [0..<length A]))
      = map (\<lambda>i. int i + 1) (filter (\<lambda>i. hd (A ! i) = who) [0..<length A])"
    by (simp add: list_index_distinct[OF d])
  then show ?thesis
    unfolding clause_of_def f .
qed

lemma auctioneer_clauses_of_distinct_rows:
  assumes rd: "for_each (parse_line top_weight to_int) lines (Auction False) = Inr a1"
    and d: "distinct (filter is_bid lines)"
  shows "build_formula top_weight to_int iter (Auction False) lines =
     Inr ((manage_incompatibilities top_weight a1 (iter (goods a1)))
           \<lparr>formula := (formula (manage_incompatibilities top_weight a1 (iter (goods a1))))
             \<lparr>hard := hard (formula (manage_incompatibilities top_weight a1 (iter (goods a1))))
                @ map (\<lambda>who. map (\<lambda>i. int i + 1)
                         (filter (\<lambda>i. hd (filter is_bid lines ! i) = who)
                            [0..<length (filter is_bid lines)]))
                    (auctioneers a1)\<rparr>\<rparr>)"
proof -
  let ?a2 = "manage_incompatibilities top_weight a1 (iter (goods a1))"
  from parse_lines_lists[OF rd] have A: "auctions a1 = filter is_bid lines" and fl: "flag a1 = False"
    by (simp_all add: Auction_def)
  have fr: "auctions ?a2 = filter is_bid lines" "flag ?a2 = False" "auctioneers ?a2 = auctioneers a1"
    using A fl by (simp_all add: manage_incompatibilities_eq)
  from bids_read_lines[OF rd] have "list_all is_bid (auctions a1)" by (simp add: bids_read_def)
  with is_bid_nonempty have ne: "list_all (\<lambda>r. r \<noteq> []) (auctions ?a2)"
    unfolding fr(1) A by blast
  have c: "clause_of (filter is_bid lines) who = map (\<lambda>i. int i + 1)
      (filter (\<lambda>i. hd (filter is_bid lines ! i) = who) [0..<length (filter is_bid lines)])" for who
    by (rule clause_of_distinct_rows[OF d])
  show ?thesis
    unfolding build_formula_def rd bind_err.simps Let_def
    using auctioneer_clauses_eq[OF ne, of top_weight] fr c by simp
qed

text \<open>
  Claim C3. The claim promises, for each auctioneer, the clause of the variables of all its
  bids. With the same bid row given twice, \<^verbatim>\<open>self.auctions.index(auction)\<close> finds the
  first of the two rows both times: the clause of auctioneer \<open>A\<close> below is \<open>[1, 1]\<close>, and
  the variable 2 of its second bid is not in it.
\<close>

theorem duplicate_bid_rows_auctioneer_clause:
  "build_formula 0 int_decimal (\<lambda>s. [(''g1'', 1), (''g1'', 2)]) (Auction False)
     [[''a'', ''A''], [''A'', ''g1'', ''10''], [''A'', ''g1'', ''10'']] =
   Inr \<lparr>flag = False,
        formula = \<lparr>variables = 2, hard = [[- 1, - 2], [1, 1]], soft = [([1], 10), ([2], 10)]\<rparr>,
        goods = {(''g1'', 2), (''g1'', 1)},
        auctions = [[''A'', ''g1'', ''10''], [''A'', ''g1'', ''10'']],
        auctioneers = [''A'']\<rparr>"
  by code_simp

lemma clause_of_positive: "l \<in> set (clause_of A who) \<Longrightarrow> 0 < l"
  using clause_of_range[of l A who] by simp

text \<open>
  Claim C2. In the formula built from an auction input, for every good and every two bids
  claiming it, the first of variable \<open>v1\<close> and the second of variable \<open>v2\<close>, the hard clause
  \<open>[-v1, -v2]\<close> occurs exactly once. Every hard clause with a negative literal is such a
  clause and occurs exactly once, and the hard clauses as \<^verbatim>\<open>manage_incompatibilities\<close> leaves
  them (the formula solved when the minimum-winning-bids constraint is off) are pairwise
  different. The goods are iterated in any order that goes through all of them.
\<close>

theorem incompatibility_clauses:
  assumes b: "build_formula top_weight to_int iter (Auction fl) lines = Inr a"
    and it: "set (iter (goods a)) = goods a"
  shows "(\<forall>i j g. i < j \<and> j < length (auctions a)
              \<and> g \<in> set (bid_goods (auctions a ! i)) \<and> g \<in> set (bid_goods (auctions a ! j))
            \<longrightarrow> count_list (hard (formula a)) [- (int i + 1), - (int j + 1)] = 1)
       \<and> (\<forall>c \<in> set (hard (formula a)). (\<exists>l \<in> set c. l < 0) \<longrightarrow>
            count_list (hard (formula a)) c = 1
            \<and> (\<exists>i j g. i < j \<and> j < length (auctions a)
                 \<and> g \<in> set (bid_goods (auctions a ! i)) \<and> g \<in> set (bid_goods (auctions a ! j))
                 \<and> c = [- (int i + 1), - (int j + 1)]))
       \<and> (fl \<longrightarrow> distinct (hard (formula a)))"
proof -
  from b obtain a1 where inv: "bids_read top_weight to_int a1"
    and a: "a = a1\<lparr>formula := (formula a1)
            \<lparr>hard := fold (add_new clash pair_clause)
                       (List.product (iter (goods a1)) (iter (goods a1)))
                       (hard_of_bids top_weight to_int (auctions a1))
                     @ (if fl then [] else map (clause_of (auctions a1)) (auctioneers a1))\<rparr>\<rparr>"
    by (rule build_formula_Inr)
  let ?A = "auctions a1" and ?gs = "iter (goods a1)"
  let ?H0 = "hard_of_bids top_weight to_int ?A"
  let ?cs = "if fl then [] else map (clause_of ?A) (auctioneers a1)"
  from inv have g: "goods a1 = goods_of_bids ?A" by (simp add: bids_read_def)
  from a have aa: "auctions a = ?A" "goods a = goods a1" by simp_all
  from it aa have gs: "set ?gs = goods_of_bids ?A" using g by simp
  from fold_add_new[of clash pair_clause "List.product ?gs ?gs" ?H0]
  obtain news where n: "fold (add_new clash pair_clause) (List.product ?gs ?gs) ?H0 = ?H0 @ news"
    "distinct news" "set news \<inter> set ?H0 = {}"
    "set news = {pair_clause x | x. x \<in> set (List.product ?gs ?gs) \<and> clash x} - set ?H0"
    by blast
  from a n(1) have H: "hard (formula a) = ?H0 @ news @ ?cs" by simp
  have pos0: "\<forall>c \<in> set ?H0. \<forall>l \<in> set c. 0 < l"
    using hard_of_bids_positive[of _ top_weight to_int ?A] by fastforce
  have poscs: "\<forall>c \<in> set ?cs. \<forall>l \<in> set c. 0 < l"
    using clause_of_positive by (auto split: if_splits)
  have news_form: "\<exists>i j g. i < j \<and> j < length ?A
                 \<and> g \<in> set (bid_goods (?A ! i)) \<and> g \<in> set (bid_goods (?A ! j))
                 \<and> c = [- (int i + 1), - (int j + 1)]" if "c \<in> set news" for c
  proof -
    from that n(4) obtain x where x: "x \<in> set (List.product ?gs ?gs)" "clash x" "c = pair_clause x"
      by auto
    obtain g1 v1 g2 v2 where xx: "x = ((g1, v1), (g2, v2))" by (metis surj_pair)
    from x(1) xx gs have m: "(g1, v1) \<in> goods_of_bids ?A" "(g2, v2) \<in> goods_of_bids ?A" by auto
    from x(2) xx have cl: "g1 = g2" "v1 < v2" by (simp_all add: clash_def)
    from m(1) obtain i where i: "i < length ?A" "v1 = int i + 1" "g1 \<in> set (bid_goods (?A ! i))"
      by (auto simp: goods_of_bids_iff)
    from m(2) obtain j where j: "j < length ?A" "v2 = int j + 1" "g2 \<in> set (bid_goods (?A ! j))"
      by (auto simp: goods_of_bids_iff)
    from cl(2) i(2) j(2) have "i < j" by simp
    with i j cl(1) x(3) xx show ?thesis by (auto simp: pair_clause_def)
  qed
  have news_count: "count_list (hard (formula a)) c = 1" if "c \<in> set news" for c
  proof -
    from news_form[OF that] obtain l where l: "l \<in> set c" "l < 0" by fastforce
    have "c \<notin> set ?H0" using that n(3) by auto
    moreover have "c \<notin> set ?cs" using poscs l by fastforce
    ultimately show ?thesis using H count_list_distinct[OF n(2) that] by simp
  qed
  have present: "count_list (hard (formula a)) [- (int i + 1), - (int j + 1)] = 1"
    if ij: "i < j" "j < length ?A" and gi: "g \<in> set (bid_goods (?A ! i))"
      and gj: "g \<in> set (bid_goods (?A ! j))" for i j g
  proof -
    let ?x = "((g, int i + 1), (g, int j + 1))"
    have "(g, int i + 1) \<in> set ?gs" "(g, int j + 1) \<in> set ?gs"
      using ij gi gj unfolding gs by (auto simp: goods_of_bids_iff)
    then have "?x \<in> set (List.product ?gs ?gs)" by simp
    moreover have "clash ?x" using ij by (simp add: clash_def)
    moreover have "pair_clause ?x \<notin> set ?H0" using pos0 by (fastforce simp: pair_clause_def)
    ultimately have "pair_clause ?x \<in> set news" unfolding n(4) by blast
    from news_count[OF this] show ?thesis by (simp add: pair_clause_def)
  qed
  have negs: "count_list (hard (formula a)) c = 1
            \<and> (\<exists>i j g. i < j \<and> j < length ?A
                 \<and> g \<in> set (bid_goods (?A ! i)) \<and> g \<in> set (bid_goods (?A ! j))
                 \<and> c = [- (int i + 1), - (int j + 1)])"
    if c: "c \<in> set (hard (formula a))" and l: "\<exists>l \<in> set c. l < 0" for c
  proof -
    from l pos0 have "c \<notin> set ?H0" by fastforce
    moreover from l poscs have "c \<notin> set ?cs" by fastforce
    ultimately have "c \<in> set news" using c H by auto
    with news_count news_form show ?thesis by blast
  qed
  have dist: "distinct (hard (formula a))" if fl
    using that H n(2,3) hard_of_bids_distinct[of top_weight to_int ?A] by auto
  from present negs dist show ?thesis unfolding aa(1) by blast
qed

theorem incompatibility_clauses_witness:
  "build_formula 0 int_decimal (\<lambda>s. [(''g1'', 1), (''g1'', 2)]) (Auction False)
      [[''a'', ''A''], [''A'', ''g1'', ''10''], [''B'', ''g1'', ''5'']]
     = Inr \<lparr>flag = False,
            formula = \<lparr>variables = 2, hard = [[- 1, - 2], [1]], soft = [([1], 10), ([2], 5)]\<rparr>,
            goods = {(''g1'', 2), (''g1'', 1)},
            auctions = [[''A'', ''g1'', ''10''], [''B'', ''g1'', ''5'']],
            auctioneers = [''A'']\<rparr>
   \<and> count_list [[- 1, - 2], [1]] [- 1, - 2] = 1"
proof -
  let ?a = "\<lparr>flag = False,
            formula = \<lparr>variables = 2, hard = [[- 1, - 2], [1]], soft = [([1], 10), ([2], 5)]\<rparr>,
            goods = {(''g1'', 2), (''g1'', 1)},
            auctions = [[''A'', ''g1'', ''10''], [''B'', ''g1'', ''5'']],
            auctioneers = [''A'']\<rparr>"
  let ?iter = "\<lambda>s :: (string \<times> int) set. [(''g1'', 1 :: int), (''g1'', 2)]"
  have b: "build_formula 0 int_decimal ?iter (Auction False)
      [[''a'', ''A''], [''A'', ''g1'', ''10''], [''B'', ''g1'', ''5'']] = Inr ?a"
    by code_simp
  have it: "set (?iter (goods ?a)) = goods ?a" by auto
  from incompatibility_clauses[OF b it] have
    "\<forall>i j g. i < j \<and> j < length (auctions ?a)
              \<and> g \<in> set (bid_goods (auctions ?a ! i)) \<and> g \<in> set (bid_goods (auctions ?a ! j))
            \<longrightarrow> count_list (hard (formula ?a)) [- (int i + 1), - (int j + 1)] = 1"
    by (rule conjunct1)
  then have "(0::nat) < 1 \<and> 1 < length (auctions ?a)
              \<and> ''g1'' \<in> set (bid_goods (auctions ?a ! 0)) \<and> ''g1'' \<in> set (bid_goods (auctions ?a ! 1))
            \<longrightarrow> count_list (hard (formula ?a)) [- (int 0 + 1), - (int 1 + 1)] = 1"
    by blast
  then have "count_list [[- 1, - 2], [1]] [- 1, - 2] = 1"
    by (simp add: bid_goods_def)
  with b show ?thesis by simp
qed

text \<open>
  Claim C9. With the minimum-winning-bids constraint on, when the input is read without
  error and declares an auctioneer that is the agent of no bid, the formula built has the
  empty hard clause, no assignment satisfies its hard clauses, and with a solver that keeps
  its contract on that formula \<^verbatim>\<open>parse_input_stream\<close> ends with \<^verbatim>\<open>Infeasible\<close>, whatever the
  bids are.
\<close>

theorem bidless_auctioneer_infeasible:
  assumes rd: "for_each (parse_line top_weight to_int) lines (Auction False) = Inr a1"
    and l: "l \<in> set lines" "hd l = ''a''" "who \<in> set (drop 1 l)"
    and nobid: "\<forall>r \<in> set lines. is_bid r \<longrightarrow> hd r \<noteq> who"
  shows "\<exists>a. build_formula top_weight to_int iter (Auction False) lines = Inr a
       \<and> [] \<in> set (hard (formula a))
       \<and> (\<forall>m. \<not> feasible (formula a) m)
       \<and> (SolverPort solve (formula a) \<longrightarrow>
            parse_input_stream top_weight to_int iter solve (Auction False) lines = Inl Infeasible)"
proof -
  let ?a = "a1\<lparr>formula := (formula a1)
            \<lparr>hard := fold (add_new clash pair_clause)
                       (List.product (iter (goods a1)) (iter (goods a1)))
                       (hard_of_bids top_weight to_int (auctions a1))
                     @ (if False then [] else map (clause_of (auctions a1)) (auctioneers a1))\<rparr>\<rparr>"
  have b: "build_formula top_weight to_int iter (Auction False) lines = Inr ?a"
    by (rule build_formula_eq[OF rd])
  from parse_lines_lists[OF rd] have A: "auctions a1 = filter is_bid lines"
    and W: "auctioneers a1 = concat (map (drop 1) (filter (\<lambda>l. hd l = ''a'') lines))"
    by (simp_all add: Auction_def)
  from l W have w: "who \<in> set (auctioneers a1)" by auto
  from nobid A have "filter (\<lambda>r. hd r = who) (auctions a1) = []"
    by (auto simp: filter_empty_conv)
  then have "clause_of (auctions a1) who = []" by (simp add: clause_of_def)
  with w have "[] \<in> set (map (clause_of (auctions a1)) (auctioneers a1))" by force
  then have e: "[] \<in> set (hard (formula ?a))" by simp
  have nf: "\<not> feasible (formula ?a) m" for m
  proof
    assume "feasible (formula ?a) m"
    then have "list_all (satisfied m) (hard (formula ?a))" by (simp add: feasible_def)
    with e have "satisfied m []" unfolding list_all_iff by blast
    then show False by (simp add: satisfied_def)
  qed
  have "parse_input_stream top_weight to_int iter solve (Auction False) lines = Inl Infeasible"
    if "SolverPort solve (formula ?a)"
  proof -
    from that nf have "solve (formula ?a) = Inl Infeasible" by (simp add: SolverPort_def)
    then show ?thesis by (simp add: parse_input_stream_build b)
  qed
  with b e nf show ?thesis by blast
qed

theorem bidless_auctioneer_infeasible_witness:
  "build_formula 0 int_decimal (\<lambda>s. [(''g1'', 1)]) (Auction False)
      [[''a'', ''A'', ''B''], [''A'', ''g1'', ''10'']]
     = Inr \<lparr>flag = False,
            formula = \<lparr>variables = 1, hard = [[1], []], soft = [([1], 10)]\<rparr>,
            goods = {(''g1'', 1)},
            auctions = [[''A'', ''g1'', ''10'']],
            auctioneers = [''A'', ''B'']\<rparr>
   \<and> parse_input_stream 0 int_decimal (\<lambda>s. [(''g1'', 1)]) (\<lambda>f. Inl Infeasible) (Auction False)
        [[''a'', ''A'', ''B''], [''A'', ''g1'', ''10'']] = Inl Infeasible"
proof -
  let ?lines = "[[''a'', ''A'', ''B''], [''A'', ''g1'', ''10'']]"
  let ?iter = "\<lambda>s :: (string \<times> int) set. [(''g1'', 1 :: int)]"
  let ?solve = "\<lambda>f :: wcnf_formula. (Inl Infeasible :: error + int \<times> int list)"
  have rd: "for_each (parse_line 0 int_decimal) ?lines (Auction False)
      = Inr \<lparr>flag = False,
            formula = \<lparr>variables = 1, hard = [], soft = [([1], 10)]\<rparr>,
            goods = {(''g1'', 1)},
            auctions = [[''A'', ''g1'', ''10'']],
            auctioneers = [''A'', ''B'']\<rparr>"
    by code_simp
  have l: "[''a'', ''A'', ''B''] \<in> set ?lines" "hd [''a'', ''A'', ''B''] = ''a''"
    "''B'' \<in> set (drop 1 [''a'', ''A'', ''B''])"
    by simp_all
  have nb: "\<forall>r \<in> set ?lines. is_bid r \<longrightarrow> hd r \<noteq> ''B''"
    by (simp add: is_bid_def)
  have b: "build_formula 0 int_decimal ?iter (Auction False) ?lines
     = Inr \<lparr>flag = False,
            formula = \<lparr>variables = 1, hard = [[1], []], soft = [([1], 10)]\<rparr>,
            goods = {(''g1'', 1)},
            auctions = [[''A'', ''g1'', ''10'']],
            auctioneers = [''A'', ''B'']\<rparr>"
    by code_simp
  from bidless_auctioneer_infeasible[OF rd l nb, of ?iter ?solve]
  obtain a where a: "build_formula 0 int_decimal ?iter (Auction False) ?lines = Inr a
       \<and> [] \<in> set (hard (formula a))
       \<and> (\<forall>m. \<not> feasible (formula a) m)
       \<and> (SolverPort ?solve (formula a) \<longrightarrow>
            parse_input_stream 0 int_decimal ?iter ?solve (Auction False) ?lines = Inl Infeasible)"
    ..
  then have "\<forall>m. \<not> feasible (formula a) m" by (elim conjE)
  then have "SolverPort ?solve (formula a)" by (simp add: SolverPort_def)
  with a have "parse_input_stream 0 int_decimal ?iter ?solve (Auction False) ?lines = Inl Infeasible"
    by (elim conjE impE)
  with b show ?thesis by simp
qed

section \<open>Printing the solution\<close>

lemma bid_line_closing:
  "r \<noteq> [] \<Longrightarrow> \<exists>l. bid_line r = Inr (l @ '')'')"
  by (simp add: bid_line_def getitem_first getitem_last)

lemma print_bids_lines:
  "\<forall>b \<in> set bids. 0 < b \<and> b \<le> int (length aucts) \<and> aucts ! nat (b - 1) \<noteq> [] \<Longrightarrow>
   \<exists>ls. print_bids aucts bids out = (out @ ls, None)
        \<and> map Inr ls = map (\<lambda>b. bid_line (aucts ! nat (b - 1))) bids
        \<and> (\<forall>l \<in> set ls. last l = CHR '')'')"
proof (induction bids arbitrary: out)
  case Nil
  show ?case by simp
next
  case (Cons b bids)
  from Cons.prems have b: "0 < b" "b \<le> int (length aucts)" "aucts ! nat (b - 1) \<noteq> []"
    and rest: "\<forall>b \<in> set bids. 0 < b \<and> b \<le> int (length aucts) \<and> aucts ! nat (b - 1) \<noteq> []"
    by simp_all
  from bid_line_closing[OF b(3)] obtain l where l: "bid_line (aucts ! nat (b - 1)) = Inr (l @ '')'')"
    by blast
  from Cons.IH[OF rest, of "out @ [l @ '')'']"] obtain ls where
    ls: "print_bids aucts bids (out @ [l @ '')'']) = ((out @ [l @ '')'']) @ ls, None)"
      "map Inr ls = map (\<lambda>b. bid_line (aucts ! nat (b - 1))) bids"
      "\<forall>l \<in> set ls. last l = CHR '')''"
    by blast
  have "print_bids aucts (b # bids) out = (out @ (l @ '')'') # ls, None)"
    by (simp add: getitem_pos[OF b(1,2)] l ls(1))
  moreover have "map Inr ((l @ '')'') # ls) = map (\<lambda>b. bid_line (aucts ! nat (b - 1))) (b # bids)"
    by (simp add: l ls(2))
  moreover have "\<forall>x \<in> set ((l @ '')'') # ls). last x = CHR '')''"
    using ls(3) by simp
  ultimately show ?case by blast
qed

text \<open>
  Claim C8. When every positive literal of the solution is the position of a bid record,
  \<^verbatim>\<open>print_solution\<close> returns without raising, its last line is \<open>Invalid solution\<close> when
  the optimal cost is negative, which is exactly when the benefit exceeds the sum of the
  soft weights, and \<open>Valid solution\<close> otherwise, and neither text is printed on any
  other line.
\<close>

theorem print_solution_verdict:
  assumes "\<forall>b \<in> set bids. 0 < b \<longrightarrow> b \<le> int (length (auctions a)) \<and> auctions a ! nat (b - 1) \<noteq> []"
  shows "\<exists>lines. print_solution a (opt, bids) =
            (lines @ [if opt < 0 then ''Invalid solution'' else ''Valid solution''], None)
          \<and> ''Invalid solution'' \<notin> set lines \<and> ''Valid solution'' \<notin> set lines
          \<and> (opt < 0 \<longleftrightarrow> sum_soft_weights (formula a) - opt > sum_soft_weights (formula a))"
proof -
  let ?w = "filter (\<lambda>bid. bid > 0) bids"
  let ?head = "''Benefit: '' @ str_int (sum_soft_weights (formula a) - opt)"
  have "\<forall>b \<in> set ?w. 0 < b \<and> b \<le> int (length (auctions a)) \<and> auctions a ! nat (b - 1) \<noteq> []"
    using assms by simp
  from print_bids_lines[OF this, of "[?head]"] obtain ls where
    ls: "print_bids (auctions a) ?w [?head] = ([?head] @ ls, None)"
      "\<forall>l \<in> set ls. last l = CHR '')''"
    by blast
  have p: "print_solution a (opt, bids) =
      ((?head # ls) @ [if opt < 0 then ''Invalid solution'' else ''Valid solution''], None)"
    using ls(1) by (simp add: print_solution_def Let_def)
  have n1: "''Invalid solution'' \<notin> set ls" "''Valid solution'' \<notin> set ls"
    using ls(2) by auto
  have n2: "''Invalid solution'' \<notin> set (?head # ls)" "''Valid solution'' \<notin> set (?head # ls)"
    using n1 by simp_all
  have "(opt < 0) = (sum_soft_weights (formula a) - opt > sum_soft_weights (formula a))"
    by linarith
  with p n2 show ?thesis by blast
qed

theorem print_solution_verdict_witness:
  "print_solution
     \<lparr>flag = True,
      formula = \<lparr>variables = 2, hard = [], soft = [([1], 10), ([2], 5)]\<rparr>,
      goods = {(''g1'', 1), (''g2'', 2)},
      auctions = [[''A'', ''g1'', ''10''], [''B'', ''g2'', ''5'']],
      auctioneers = []\<rparr> (- 3, [1, - 2])
     = ([''Benefit: 18'', ''A: g1 (Price 10)'', ''Invalid solution''], None)
   \<and> print_solution
     \<lparr>flag = True,
      formula = \<lparr>variables = 2, hard = [], soft = [([1], 10), ([2], 5)]\<rparr>,
      goods = {(''g1'', 1), (''g2'', 2)},
      auctions = [[''A'', ''g1'', ''10''], [''B'', ''g2'', ''5'']],
      auctioneers = []\<rparr> (5, [1, - 2])
     = ([''Benefit: 10'', ''A: g1 (Price 10)'', ''Valid solution''], None)"
proof -
  let ?a = "\<lparr>flag = True,
      formula = \<lparr>variables = 2, hard = [], soft = [([1], 10), ([2], 5)]\<rparr>,
      goods = {(''g1'', 1), (''g2'', 2)},
      auctions = [[''A'', ''g1'', ''10''], [''B'', ''g2'', ''5'']],
      auctioneers = []\<rparr>"
  have h: "\<forall>b \<in> set [1, - 2 :: int].
      0 < b \<longrightarrow> b \<le> int (length (auctions ?a)) \<and> auctions ?a ! nat (b - 1) \<noteq> []"
    by simp
  have e1: "print_solution ?a (- 3, [1, - 2])
      = ([''Benefit: 18'', ''A: g1 (Price 10)'', ''Invalid solution''], None)"
    by code_simp
  have e2: "print_solution ?a (5, [1, - 2])
      = ([''Benefit: 10'', ''A: g1 (Price 10)'', ''Valid solution''], None)"
    by code_simp
  from print_solution_verdict[OF h, of "- 3"] print_solution_verdict[OF h, of 5] e1 e2
  show ?thesis by simp
qed

lemma complete_member:
  assumes c: "map abs m = [1..n]" and b: "b \<in> set m"
  shows "1 \<le> \<bar>b\<bar> \<and> \<bar>b\<bar> \<le> n"
proof -
  from b have "\<bar>b\<bar> \<in> set (map abs m)" by simp
  with c show ?thesis by simp
qed

lemma complete_positive_iff:
  assumes c: "map abs m = [1..n]" and b: "b \<in> set m"
  shows "(\<bar>b\<bar> \<in> set m) = (0 < b)"
proof (cases "0 < b")
  case True
  with b show ?thesis by simp
next
  case False
  from complete_member[OF c b] have r: "1 \<le> - b" "- b \<le> n" using False by simp_all
  from complete_neg_iff[OF c r] b have "- b \<notin> set m" by simp
  with False show ?thesis by simp
qed

lemma positives_of_complete:
  assumes c: "map abs m = [1..n]"
  shows "filter (\<lambda>b. 0 < b) m = filter (\<lambda>v. v \<in> set m) [1..n]"
proof -
  have "filter (\<lambda>v. v \<in> set m) [1..n] = map abs (filter ((\<lambda>v. v \<in> set m) \<circ> abs) m)"
    unfolding c[symmetric] by (rule filter_map)
  also have "filter ((\<lambda>v. v \<in> set m) \<circ> abs) m = filter (\<lambda>b. 0 < b) m"
    by (rule filter_cong[OF refl]) (simp add: complete_positive_iff[OF c])
  also have "map abs (filter (\<lambda>b. 0 < b) m) = filter (\<lambda>b. 0 < b) m"
    by (rule map_idI) simp
  finally show ?thesis by simp
qed

lemma benefit_sum:
  assumes c: "map abs m = [1..n]"
  shows "sum_list (map snd (map (\<lambda>v. ([v], p v)) [1..n]))
           - falsified_weight m (map (\<lambda>v. ([v], p v)) [1..n])
         = sum_list (map p (filter (\<lambda>b. 0 < b) m))"
proof -
  have "sum_list (map snd (map (\<lambda>v. ([v], p v)) xs)) - falsified_weight m (map (\<lambda>v. ([v], p v)) xs)
      = sum_list (map p (filter (\<lambda>v. v \<in> set m) xs))" for xs
    by (induction xs) (simp_all add: falsified_weight_def satisfied_def)
  then show ?thesis by (simp add: positives_of_complete[OF c])
qed

lemma soft_of_bids_no_top:
  assumes "\<forall>r \<in> set A. bid_price to_int r \<noteq> Inr top_weight"
  shows "soft_of_bids top_weight to_int A
     = map (\<lambda>v. ([v], projr (bid_price to_int (A ! nat (v - 1))))) [1..int (length A)]"
proof -
  have "filter (\<lambda>v. bid_price to_int (A ! nat (v - 1)) \<noteq> Inr top_weight) [1..int (length A)]
      = [1..int (length A)]"
  proof (rule filter_True, rule ballI)
    fix v assume "v \<in> set [1..int (length A)]"
    then have "nat (v - 1) < length A" by auto
    then have "A ! nat (v - 1) \<in> set A" by simp
    with assms show "bid_price to_int (A ! nat (v - 1)) \<noteq> Inr top_weight" by blast
  qed
  then show ?thesis by (simp add: soft_of_bids_def)
qed

text \<open>
  Claim C1. For the object built from an auction input none of whose prices is the top
  weight, and a solver result that keeps the contract on its formula, the bid records are
  the bid lines in input order, the benefit \<^verbatim>\<open>sum_soft_weights() - opt\<close> is the sum of the
  prices of the bids whose literal is positive, the bid of literal \<open>b\<close> being the record at
  position \<open>b\<close> counted from 1, and \<^verbatim>\<open>print_solution\<close> prints that benefit, then the line of
  each such record, then the verdict.
\<close>

theorem benefit_is_winning_prices:
  assumes b: "build_formula top_weight to_int iter (Auction fl) lines = Inr a"
    and c: "SolverPort_result (formula a) (opt, model)"
    and nt: "\<forall>r \<in> set lines. is_bid r \<longrightarrow> bid_price to_int r \<noteq> Inr top_weight"
  shows "auctions a = filter is_bid lines
       \<and> sum_soft_weights (formula a) - opt
           = sum_list (map (\<lambda>b. projr (bid_price to_int (auctions a ! nat (b - 1))))
                         (filter (\<lambda>b. 0 < b) model))
       \<and> (\<exists>out. print_solution a (opt, model)
              = ((''Benefit: '' @ str_int (sum_list
                    (map (\<lambda>b. projr (bid_price to_int (auctions a ! nat (b - 1))))
                         (filter (\<lambda>b. 0 < b) model)))) # out
                  @ [if opt < 0 then ''Invalid solution'' else ''Valid solution''], None)
            \<and> map Inr out = map (\<lambda>b. bid_line (auctions a ! nat (b - 1)))
                               (filter (\<lambda>b. 0 < b) model))"
proof -
  from b obtain a1 where inv: "bids_read top_weight to_int a1"
    and A: "auctions a1 = filter is_bid lines"
    and a: "a = a1\<lparr>formula := (formula a1)
            \<lparr>hard := fold (add_new clash pair_clause)
                       (List.product (iter (goods a1)) (iter (goods a1)))
                       (hard_of_bids top_weight to_int (auctions a1))
                     @ (if fl then [] else map (clause_of (auctions a1)) (auctioneers a1))\<rparr>\<rparr>"
    by (rule build_formula_Inr)
  let ?A = "auctions a" and ?n = "int (length (auctions a))"
  let ?p = "\<lambda>v. projr (bid_price to_int (?A ! nat (v - 1)))"
  from a have aa: "auctions a = auctions a1" "soft (formula a) = soft (formula a1)"
    "variables (formula a) = variables (formula a1)" by simp_all
  from inv aa have v: "variables (formula a) = ?n"
    and s0: "soft (formula a) = soft_of_bids top_weight to_int ?A"
    and nb: "list_all is_bid ?A"
    by (simp_all add: bids_read_def)
  have "\<forall>r \<in> set ?A. bid_price to_int r \<noteq> Inr top_weight"
    using nt unfolding aa(1) A by simp
  from soft_of_bids_no_top[OF this] s0
  have s: "soft (formula a) = map (\<lambda>v. ([v], ?p v)) [1..?n]" by simp
  from c have m: "map abs model = [1..?n]" and o: "opt = cost (formula a) model"
    by (simp_all add: SolverPort_result_def feasible_def complete_assignment_def v)
  have ben: "sum_soft_weights (formula a) - opt = sum_list (map ?p (filter (\<lambda>b. 0 < b) model))"
    unfolding sum_soft_weights_def o cost_def s by (rule benefit_sum[OF m])
  have ok: "\<forall>b \<in> set (filter (\<lambda>b. 0 < b) model).
      0 < b \<and> b \<le> int (length ?A) \<and> ?A ! nat (b - 1) \<noteq> []"
  proof
    fix b assume "b \<in> set (filter (\<lambda>b. 0 < b) model)"
    then have b: "b \<in> set model" "0 < b" by simp_all
    from complete_member[OF m b(1)] b(2) have r: "b \<le> ?n" by simp
    with b(2) have "nat (b - 1) < length ?A" by simp
    then have "?A ! nat (b - 1) \<in> set ?A" by simp
    with is_bid_nonempty[OF nb] have "?A ! nat (b - 1) \<noteq> []" unfolding list_all_iff by blast
    with b(2) r show "0 < b \<and> b \<le> int (length ?A) \<and> ?A ! nat (b - 1) \<noteq> []" by simp
  qed
  let ?head = "''Benefit: '' @ str_int (sum_soft_weights (formula a) - opt)"
  from print_bids_lines[OF ok, of "[?head]"] obtain ls where
    ls: "print_bids ?A (filter (\<lambda>b. 0 < b) model) [?head] = ([?head] @ ls, None)"
      "map Inr ls = map (\<lambda>b. bid_line (?A ! nat (b - 1))) (filter (\<lambda>b. 0 < b) model)"
    by blast
  have "print_solution a (opt, model) =
      (?head # ls @ [if opt < 0 then ''Invalid solution'' else ''Valid solution''], None)"
    using ls(1) by (simp add: print_solution_def Let_def)
  with ls(2) ben aa(1) A show ?thesis by auto
qed

theorem benefit_is_winning_prices_witness:
  "build_formula 0 int_decimal (\<lambda>s. [(''g1'', 1), (''g1'', 2)]) (Auction True)
      [[''a'', ''A'', ''B''], [''g'', ''g1''], [''A'', ''g1'', ''10''], [''B'', ''g1'', ''5'']]
     = Inr \<lparr>flag = True,
            formula = \<lparr>variables = 2, hard = [[- 1, - 2]], soft = [([1], 10), ([2], 5)]\<rparr>,
            goods = {(''g1'', 2), (''g1'', 1)},
            auctions = [[''A'', ''g1'', ''10''], [''B'', ''g1'', ''5'']],
            auctioneers = [''A'', ''B'']\<rparr>
   \<and> SolverPort_result \<lparr>variables = 2, hard = [[- 1, - 2]], soft = [([1], 10), ([2], 5)]\<rparr>
        (5, [1, - 2])
   \<and> sum_soft_weights \<lparr>variables = 2, hard = [[- 1, - 2]], soft = [([1], 10), ([2], 5)]\<rparr> - 5 = 10
   \<and> print_solution
        \<lparr>flag = True,
         formula = \<lparr>variables = 2, hard = [[- 1, - 2]], soft = [([1], 10), ([2], 5)]\<rparr>,
         goods = {(''g1'', 2), (''g1'', 1)},
         auctions = [[''A'', ''g1'', ''10''], [''B'', ''g1'', ''5'']],
         auctioneers = [''A'', ''B'']\<rparr> (5, [1, - 2])
       = ([''Benefit: 10'', ''A: g1 (Price 10)'', ''Valid solution''], None)"
proof -
  let ?lines = "[[''a'', ''A'', ''B''], [''g'', ''g1''], [''A'', ''g1'', ''10''], [''B'', ''g1'', ''5'']]"
  let ?iter = "\<lambda>s :: (string \<times> int) set. [(''g1'', 1 :: int), (''g1'', 2)]"
  let ?f = "\<lparr>variables = 2, hard = [[- 1, - 2]], soft = [([1], 10), ([2], 5)]\<rparr>"
  let ?a = "\<lparr>flag = True, formula = ?f, goods = {(''g1'', 2), (''g1'', 1)},
         auctions = [[''A'', ''g1'', ''10''], [''B'', ''g1'', ''5'']],
         auctioneers = [''A'', ''B'']\<rparr>"
  have b: "build_formula 0 int_decimal ?iter (Auction True) ?lines = Inr ?a"
    by code_simp
  have u: "[1..2] = [1, 2 :: int]" by code_simp
  have feas: "feasible ?f [1, - 2]"
    by (simp add: feasible_def complete_assignment_def u satisfied_def)
  have opt: "cost ?f [1, - 2] = 5"
    by (simp add: cost_def falsified_weight_def satisfied_def)
  have least: "5 \<le> cost ?f m" if m: "feasible ?f m" for m
  proof -
    from m have c: "map abs m = [1..2]" and h: "- 1 \<in> set m \<or> - 2 \<in> set m"
      by (simp_all add: feasible_def complete_assignment_def satisfied_def)
    have n1: "(- 1 \<in> set m) = (1 \<notin> set m)" using complete_neg_iff[OF c, of 1] by simp
    have n2: "(- 2 \<in> set m) = (2 \<notin> set m)" using complete_neg_iff[OF c, of 2] by simp
    from h n1 n2 show ?thesis
      by (auto simp: cost_def falsified_weight_def satisfied_def)
  qed
  have c: "SolverPort_result (formula ?a) (5, [1, - 2])"
    using feas opt least by (simp add: SolverPort_result_def)
  have nt: "\<forall>r \<in> set ?lines. is_bid r \<longrightarrow> bid_price int_decimal r \<noteq> Inr 0"
    by (simp add: is_bid_def bid_price_def getitem_def int_decimal_def)
  have e: "print_solution ?a (5, [1, - 2])
       = ([''Benefit: 10'', ''A: g1 (Price 10)'', ''Valid solution''], None)"
    by code_simp
  have s: "sum_soft_weights ?f - 5 = 10" by (simp add: sum_soft_weights_def)
  from benefit_is_winning_prices[OF b c nt] b c e s show ?thesis by simp
qed

section \<open>Literals and variables\<close>

lemma lir_add:
  "literals_in_range f \<Longrightarrow> list_all (\<lambda>l. 1 \<le> \<bar>l\<bar> \<and> \<bar>l\<bar> \<le> variables f) c \<Longrightarrow>
   literals_in_range (add_clause top_weight f c w)"
  by (simp add: literals_in_range_def add_clause_def)

lemma add_clause_variables: "variables (add_clause top_weight f c w) = variables f"
  by (simp add: add_clause_def)

lemma getitem_mem: "getitem xs i = Inr x \<Longrightarrow> x \<in> set xs"
  by (auto simp: getitem_def split: if_splits)

lemma edge_vars_mem: "edge_vars nodes e = Inr (v1, v2) \<Longrightarrow> v1 \<in> set nodes \<and> v2 \<in> set nodes"
  by (auto simp: edge_vars_def split: prod.splits dest!: bind_err_Inr getitem_mem)

lemma fold_invariant:
  "I s \<Longrightarrow> (\<And>x s. x \<in> set xs \<Longrightarrow> I s \<Longrightarrow> I (f x s)) \<Longrightarrow> I (fold f xs s)"
  by (induction xs arbitrary: s) simp_all

lemma ranged_init: "ranged n \<lparr>variables = int (nat n), hard = [], soft = []\<rparr>"
  by (simp add: ranged_def literals_in_range_def)

lemma ranged_add:
  "ranged n f \<Longrightarrow> \<forall>l \<in> set c. 1 \<le> \<bar>l\<bar> \<and> \<bar>l\<bar> \<le> n \<Longrightarrow> ranged n (add_clause top_weight f c w)"
proof -
  assume r: "ranged n f" and c: "\<forall>l \<in> set c. 1 \<le> \<bar>l\<bar> \<and> \<bar>l\<bar> \<le> n"
  have "1 \<le> \<bar>l\<bar> \<and> \<bar>l\<bar> \<le> variables f" if "l \<in> set c" for l
  proof -
    from c that have "1 \<le> \<bar>l\<bar>" "\<bar>l\<bar> \<le> n" by simp_all
    moreover from r have "variables f = int (nat n)" by (simp add: ranged_def)
    ultimately show ?thesis by simp
  qed
  then have "list_all (\<lambda>l. 1 \<le> \<bar>l\<bar> \<and> \<bar>l\<bar> \<le> variables f) c" by (simp add: list_all_iff)
  with r show ?thesis
    by (simp add: ranged_def lir_add add_clause_variables)
qed

lemma ranged_soft:
  "ranged n f \<Longrightarrow> (\<And>v. \<bar>c v\<bar> = \<bar>v\<bar>) \<Longrightarrow>
   ranged n (fold (\<lambda>v f. add_clause top_weight f [c v] 1) [1..n] f)"
  by (rule fold_invariant[where I = "ranged n"]) (auto intro!: ranged_add)

lemma min_vertex_cover_formula_range:
  assumes "min_vertex_cover_formula top_weight g = Inr f"
  shows "literals_in_range f"
proof -
  let ?n = "n_nodes g"
  let ?f1 = "fold (\<lambda>n f. add_clause top_weight f [- n] 1) [1..?n]
               \<lparr>variables = int (nat ?n), hard = [], soft = []\<rparr>"
  have f1: "ranged ?n ?f1" by (rule ranged_soft[OF ranged_init]) simp
  have "ranged ?n f"
  proof (rule for_each_invariant[where I = "ranged ?n", OF f1])
    show "for_each (\<lambda>e f. bind_err (edge_vars [1..?n] e) (\<lambda>p. case p of (v1, v2) \<Rightarrow>
              Inr (add_clause top_weight f [v1, v2] top_weight))) (edges g) ?f1 = Inr f"
      using assms by (simp add: min_vertex_cover_formula_def new_vars_init)
  next
    fix e s s'
    assume s: "ranged ?n s"
      and b: "bind_err (edge_vars [1..?n] e) (\<lambda>p. case p of (v1, v2) \<Rightarrow>
              Inr (add_clause top_weight s [v1, v2] top_weight)) = Inr s'"
    from b obtain v1 v2 where ev: "edge_vars [1..?n] e = Inr (v1, v2)"
      and s': "s' = add_clause top_weight s [v1, v2] top_weight"
      by (auto dest!: bind_err_Inr split: prod.splits)
    from edge_vars_mem[OF ev] have "\<forall>l \<in> set [v1, v2]. 1 \<le> \<bar>l\<bar> \<and> \<bar>l\<bar> \<le> ?n" by auto
    from ranged_add[OF s this] s' show "ranged ?n s'" by simp
  qed
  then show ?thesis by (simp add: ranged_def)
qed

lemma max_cut_formula_range:
  assumes "max_cut_formula top_weight g = Inr f"
  shows "literals_in_range f"
proof -
  let ?n = "n_nodes g"
  have "ranged ?n f"
  proof (rule for_each_invariant[where I = "ranged ?n", OF ranged_init])
    show "for_each (\<lambda>e f. bind_err (edge_vars [1..?n] e) (\<lambda>p. case p of (v1, v2) \<Rightarrow>
              Inr (add_clause top_weight (add_clause top_weight f [v1, v2] 1) [- v1, - v2] 1)))
            (edges g) \<lparr>variables = int (nat ?n), hard = [], soft = []\<rparr> = Inr f"
      using assms by (simp add: max_cut_formula_def new_vars_init)
  next
    fix e s s'
    assume s: "ranged ?n s"
      and b: "bind_err (edge_vars [1..?n] e) (\<lambda>p. case p of (v1, v2) \<Rightarrow>
              Inr (add_clause top_weight (add_clause top_weight s [v1, v2] 1) [- v1, - v2] 1)) = Inr s'"
    from b obtain v1 v2 where ev: "edge_vars [1..?n] e = Inr (v1, v2)"
      and s': "s' = add_clause top_weight (add_clause top_weight s [v1, v2] 1) [- v1, - v2] 1"
      by (auto dest!: bind_err_Inr split: prod.splits)
    from edge_vars_mem[OF ev] have r: "\<forall>l \<in> set [v1, v2]. 1 \<le> \<bar>l\<bar> \<and> \<bar>l\<bar> \<le> ?n"
      "\<forall>l \<in> set [- v1, - v2]. 1 \<le> \<bar>l\<bar> \<and> \<bar>l\<bar> \<le> ?n" by auto
    from ranged_add[OF ranged_add[OF s r(1)] r(2)] s' show "ranged ?n s'" by simp
  qed
  then show ?thesis by (simp add: ranged_def)
qed

lemma non_edge_clause_range:
  assumes s: "ranged n s" and i: "0 \<le> index1" "index1 < index2" "index2 \<le> n - 1"
    and b: "non_edge_clause top_weight matrix index1 index2 s = Inr s'"
  shows "ranged n s'"
proof -
  from b have "s' = s \<or> s' = add_clause top_weight s [- (index1 + 1), - (index2 + 1)] top_weight"
    by (auto simp: non_edge_clause_def dest!: bind_err_Inr split: if_splits)
  moreover have "\<forall>l \<in> set [- (index1 + 1), - (index2 + 1)]. 1 \<le> \<bar>l\<bar> \<and> \<bar>l\<bar> \<le> n"
    using i by auto
  ultimately show ?thesis using s ranged_add by blast
qed

lemma max_clique_formula_range:
  assumes "max_clique_formula top_weight g = Inr f"
  shows "literals_in_range f"
proof -
  let ?n = "n_nodes g"
  let ?f1 = "fold (\<lambda>n f. add_clause top_weight f [n] 1) [1..?n]
               \<lparr>variables = int (nat ?n), hard = [], soft = []\<rparr>"
  have f1: "ranged ?n ?f1" by (rule ranged_soft[OF ranged_init]) simp
  from assms have n: "1 \<le> ?n"
    by (cases "1 \<le> ?n") (simp_all add: max_clique_formula_def new_vars_init)
  from assms n obtain matrix where
    loop: "for_each (\<lambda>index1.
             for_each (non_edge_clause top_weight matrix index1) [index1 + 1..?n - 1])
           [0..?n - 1] ?f1 = Inr f"
    by (auto simp: max_clique_formula_def new_vars_init Let_def last_upto dest!: bind_err_Inr)
  have "ranged ?n f"
  proof (rule for_each_invariant[where I = "ranged ?n", OF f1 _ loop])
    fix index1 s s'
    assume i1: "index1 \<in> set [0..?n - 1]" and s: "ranged ?n s"
      and inner: "for_each (non_edge_clause top_weight matrix index1) [index1 + 1..?n - 1] s = Inr s'"
    show "ranged ?n s'"
    proof (rule for_each_invariant[where I = "ranged ?n", OF s _ inner])
      fix index2 t t'
      assume i2: "index2 \<in> set [index1 + 1..?n - 1]" and t: "ranged ?n t"
        and b: "non_edge_clause top_weight matrix index1 index2 t = Inr t'"
      from i1 i2 have "0 \<le> index1" "index1 < index2" "index2 \<le> ?n - 1" by auto
      from non_edge_clause_range[OF t this b] show "ranged ?n t'" .
    qed
  qed
  then show ?thesis by (simp add: ranged_def)
qed

lemma soft_of_bids_range:
  "cw \<in> set (soft_of_bids top_weight to_int A) \<Longrightarrow> \<exists>v. fst cw = [v] \<and> 1 \<le> v \<and> v \<le> int (length A)"
  unfolding soft_of_bids_def by auto

lemma build_formula_range:
  assumes b: "build_formula top_weight to_int iter (Auction fl) lines = Inr a"
    and it: "set (iter (goods a)) \<subseteq> goods a"
  shows "literals_in_range (formula a)"
proof -
  from b obtain a1 where inv: "bids_read top_weight to_int a1"
    and a: "a = a1\<lparr>formula := (formula a1)
            \<lparr>hard := fold (add_new clash pair_clause)
                       (List.product (iter (goods a1)) (iter (goods a1)))
                       (hard_of_bids top_weight to_int (auctions a1))
                     @ (if fl then [] else map (clause_of (auctions a1)) (auctioneers a1))\<rparr>\<rparr>"
    by (rule build_formula_Inr)
  let ?A = "auctions a1" and ?gs = "iter (goods a1)"
  let ?n = "int (length ?A)"
  let ?H0 = "hard_of_bids top_weight to_int ?A"
  let ?cs = "if fl then [] else map (clause_of ?A) (auctioneers a1)"
  let ?P = "\<lambda>l. 1 \<le> \<bar>l\<bar> \<and> \<bar>l\<bar> \<le> ?n"
  from inv have g: "goods a1 = goods_of_bids ?A" and v: "variables (formula a1) = ?n"
    and s: "soft (formula a1) = soft_of_bids top_weight to_int ?A"
    by (simp_all add: bids_read_def)
  from a it g have gs: "set ?gs \<subseteq> goods_of_bids ?A" by simp
  from fold_add_new[of clash pair_clause "List.product ?gs ?gs" ?H0]
  obtain news where n: "fold (add_new clash pair_clause) (List.product ?gs ?gs) ?H0 = ?H0 @ news"
    "set news = {pair_clause x | x. x \<in> set (List.product ?gs ?gs) \<and> clash x} - set ?H0"
    by blast
  have h0: "\<forall>l \<in> set c. ?P l" if "c \<in> set ?H0" for c
    using hard_of_bids_positive[OF that] by auto
  have hn: "\<forall>l \<in> set c. ?P l" if "c \<in> set news" for c
  proof -
    from that n(2) obtain x where x: "x \<in> set (List.product ?gs ?gs)" "c = pair_clause x"
      by auto
    obtain g1 v1 g2 v2 where xx: "x = ((g1, v1), (g2, v2))" by (metis surj_pair)
    from x(1) xx gs have "(g1, v1) \<in> goods_of_bids ?A" "(g2, v2) \<in> goods_of_bids ?A" by auto
    then have "1 \<le> v1 \<and> v1 \<le> ?n" "1 \<le> v2 \<and> v2 \<le> ?n"
      by (auto simp: goods_of_bids_iff)
    with x(2) xx show ?thesis by (auto simp: pair_clause_def)
  qed
  have hc: "\<forall>l \<in> set c. ?P l" if "c \<in> set ?cs" for c
    using that clause_of_range[of _ ?A] by (fastforce split: if_splits)
  have hs: "\<forall>l \<in> set c. ?P l" if "c \<in> set (map fst (soft_of_bids top_weight to_int ?A))" for c
    using that soft_of_bids_range[of _ top_weight to_int ?A] by fastforce
  have "\<forall>c \<in> set (?H0 @ news @ ?cs @ map fst (soft_of_bids top_weight to_int ?A)).
          \<forall>l \<in> set c. ?P l"
    using h0 hn hc hs by (metis Un_iff set_append)
  then have "list_all (list_all ?P) ((?H0 @ news @ ?cs) @ map fst (soft_of_bids top_weight to_int ?A))"
    by (simp add: list_all_iff)
  then show ?thesis
    unfolding literals_in_range_def a using n(1) v s by simp
qed

text \<open>
  Claim C7. Whenever one of the four reducers builds a formula, every literal of every hard
  and soft clause of it names a variable between 1 and the number of variables of the
  formula. For the auction the goods are iterated in an order that yields recorded pairs
  only.
\<close>

theorem literals_within_variables:
  "(build_formula top_weight to_int iter (Auction fl) lines = Inr a
      \<and> set (iter (goods a)) \<subseteq> goods a \<longrightarrow> literals_in_range (formula a))
   \<and> (min_vertex_cover_formula top_weight g = Inr f1 \<longrightarrow> literals_in_range f1)
   \<and> (max_clique_formula top_weight g = Inr f2 \<longrightarrow> literals_in_range f2)
   \<and> (max_cut_formula top_weight g = Inr f3 \<longrightarrow> literals_in_range f3)"
  using build_formula_range min_vertex_cover_formula_range max_clique_formula_range
    max_cut_formula_range by blast

theorem literals_within_variables_witness:
  "build_formula 0 int_decimal (\<lambda>s. [(''g1'', 1), (''g1'', 2)]) (Auction False)
      [[''a'', ''A'', ''B''], [''A'', ''g1'', ''10''], [''B'', ''g1'', ''5'']]
     = Inr \<lparr>flag = False,
            formula = \<lparr>variables = 2, hard = [[- 1, - 2], [1], [2]], soft = [([1], 10), ([2], 5)]\<rparr>,
            goods = {(''g1'', 2), (''g1'', 1)},
            auctions = [[''A'', ''g1'', ''10''], [''B'', ''g1'', ''5'']],
            auctioneers = [''A'', ''B'']\<rparr>
   \<and> literals_in_range \<lparr>variables = 2, hard = [[- 1, - 2], [1], [2]], soft = [([1], 10), ([2], 5)]\<rparr>
   \<and> min_vertex_cover_formula 0 \<lparr>edges = [[1, 2], [2, 3]], n_nodes = 3\<rparr>
       = Inr \<lparr>variables = 3, hard = [[1, 2], [2, 3]], soft = [([- 1], 1), ([- 2], 1), ([- 3], 1)]\<rparr>
   \<and> literals_in_range \<lparr>variables = 3, hard = [[1, 2], [2, 3]],
         soft = [([- 1], 1), ([- 2], 1), ([- 3], 1)]\<rparr>
   \<and> max_clique_formula 0 \<lparr>edges = [[1, 2], [2, 3]], n_nodes = 3\<rparr>
       = Inr \<lparr>variables = 3, hard = [[- 1, - 3]], soft = [([1], 1), ([2], 1), ([3], 1)]\<rparr>
   \<and> literals_in_range \<lparr>variables = 3, hard = [[- 1, - 3]], soft = [([1], 1), ([2], 1), ([3], 1)]\<rparr>
   \<and> max_cut_formula 0 \<lparr>edges = [[1, 2], [2, 3]], n_nodes = 3\<rparr>
       = Inr \<lparr>variables = 3, hard = [],
              soft = [([1, 2], 1), ([- 1, - 2], 1), ([2, 3], 1), ([- 2, - 3], 1)]\<rparr>
   \<and> literals_in_range \<lparr>variables = 3, hard = [],
         soft = [([1, 2], 1), ([- 1, - 2], 1), ([2, 3], 1), ([- 2, - 3], 1)]\<rparr>"
proof -
  let ?iter = "\<lambda>s :: (string \<times> int) set. [(''g1'', 1 :: int), (''g1'', 2)]"
  let ?lines = "[[''a'', ''A'', ''B''], [''A'', ''g1'', ''10''], [''B'', ''g1'', ''5'']]"
  let ?a = "\<lparr>flag = False,
            formula = \<lparr>variables = 2, hard = [[- 1, - 2], [1], [2]], soft = [([1], 10), ([2], 5)]\<rparr>,
            goods = {(''g1'', 2), (''g1'', 1)},
            auctions = [[''A'', ''g1'', ''10''], [''B'', ''g1'', ''5'']],
            auctioneers = [''A'', ''B'']\<rparr>"
  let ?g = "\<lparr>edges = [[1, 2], [2, 3]], n_nodes = 3\<rparr>"
  let ?f1 = "\<lparr>variables = 3, hard = [[1, 2], [2, 3]], soft = [([- 1], 1), ([- 2], 1), ([- 3], 1)]\<rparr>"
  let ?f2 = "\<lparr>variables = 3, hard = [[- 1, - 3]], soft = [([1], 1), ([2], 1), ([3], 1)]\<rparr>"
  let ?f3 = "\<lparr>variables = 3, hard = [],
              soft = [([1, 2], 1), ([- 1, - 2], 1), ([2, 3], 1), ([- 2, - 3], 1)]\<rparr>"
  have b: "build_formula 0 int_decimal ?iter (Auction False) ?lines = Inr ?a" by code_simp
  have it: "set (?iter (goods ?a)) \<subseteq> goods ?a" by auto
  have m1: "min_vertex_cover_formula 0 ?g = Inr ?f1" by code_simp
  have m2: "max_clique_formula 0 ?g = Inr ?f2" by code_simp
  have m3: "max_cut_formula 0 ?g = Inr ?f3" by code_simp
  from literals_within_variables[of 0 int_decimal ?iter False ?lines ?a ?g ?f1 ?f2 ?f3] b it m1 m2 m3
  show ?thesis by simp
qed

end
